theory Spec2Isabelle
  imports Main
begin

section \<open>Data model of \<^verbatim>\<open>scripts/fix_icon.py\<close>\<close>

text \<open>
  The script opens a logo, converts it to RGBA, flood-fills the near-white region that is
  connected to the image border with a fixed green, saves the result and derives a family
  of icon sizes from it. A pixel of an RGBA image is a 4-tuple of Python integers; a
  coordinate is a pair of Python integers.
\<close>

type_synonym coord = "int \<times> int"

type_synonym rgba = "int \<times> int \<times> int \<times> int"

text \<open>
  The only exception the pixel accesses of the fill can raise is the library's
  ``image index out of range''.
\<close>

datatype error = IndexError

text \<open>
  An image as the script sees it: \<^verbatim>\<open>width, height = img.size\<close> and the pixel access
  object \<^verbatim>\<open>pixels = img.load()\<close>. The fill below is written for any pixel type \<open>'p\<close>;
  the script runs it on \<open>rgba\<close>.
\<close>

record 'p image =
  width :: int
  height :: int
  pixels :: "coord \<Rightarrow> 'p"

text \<open>
  Pixel access of the imaging library: a negative index counts from the far edge
  (\<open>x < 0\<close> becomes \<open>width + x\<close>), and an index that is still outside the image after that
  raises. Reading and writing share the rule.
\<close>

definition inside :: "int \<Rightarrow> int \<Rightarrow> coord \<Rightarrow> bool" where
  "inside w h = (\<lambda>(x, y). 0 \<le> x \<and> x < w \<and> 0 \<le> y \<and> y < h)"

definition wrap_xy :: "'p image \<Rightarrow> coord \<Rightarrow> coord" where
  "wrap_xy im = (\<lambda>(x, y).
     (if x < 0 then width im + x else x, if y < 0 then height im + y else y))"

definition getpixel :: "'p image \<Rightarrow> coord \<Rightarrow> error + 'p" where
  "getpixel im xy =
     (let q = wrap_xy im xy
      in if inside (width im) (height im) q then Inr (pixels im q) else Inl IndexError)"

definition putpixel :: "'p image \<Rightarrow> coord \<Rightarrow> 'p \<Rightarrow> error + 'p image" where
  "putpixel im xy v =
     (let q = wrap_xy im xy
      in if inside (width im) (height im) q
         then Inr (im\<lparr>pixels := (pixels im)(q := v)\<rparr>)
         else Inl IndexError)"

subsection \<open>The caller's colour policy\<close>

text \<open>
  \<^verbatim>\<open>target_green = (17, 124, 50, 255)\<close> and
  \<^verbatim>\<open>def is_white(pixel): return pixel[0] > 200 and pixel[1] > 200 and pixel[2] > 200\<close>.
\<close>

definition target_green :: rgba where
  "target_green = (17, 124, 50, 255)"

definition is_white :: "rgba \<Rightarrow> bool" where
  "is_white pixel = (case pixel of (r, g, b, a) \<Rightarrow> r > 200 \<and> g > 200 \<and> b > 200)"

section \<open>The flood fill\<close>

text \<open>
  The state of the fill: the image being mutated, the \<^verbatim>\<open>visited\<close> set and the
  \<^verbatim>\<open>queue\<close> list. The field \<open>trace\<close> is not a variable of the script: it records, in
  order, every coordinate at which the script indexes \<^verbatim>\<open>pixels\<close>, so that statements
  about which accesses the fill performs can be written down. Nothing reads it.

  The script's loop tests pixels with \<^verbatim>\<open>is_white\<close> and writes \<^verbatim>\<open>target_green\<close>. In
  the definitions below the predicate and the colour are the parameters \<open>matches\<close> and
  \<open>target\<close>; the model of the script passes \<open>is_white\<close> and \<open>target_green\<close>.
\<close>

datatype access = Read coord | Write coord

record 'p fill_state =
  img :: "'p image"
  visited :: "coord set"
  queue :: "coord list"
  trace :: "access list"

text \<open>
  Lines 34 to 39: the two \<^verbatim>\<open>for\<close> loops that enqueue the border. \<^verbatim>\<open>range(n)\<close> is
  \<open>[0..n - 1]\<close>, empty for \<open>n \<le> 0\<close>.
\<close>

definition border_queue :: "int \<Rightarrow> int \<Rightarrow> coord list" where
  "border_queue w h =
     concat (map (\<lambda>x. [(x, 0), (x, h - 1)]) [0..w - 1]) @
     concat (map (\<lambda>y. [(0, y), (w - 1, y)]) [0..h - 1])"

text \<open>
  Line 42: \<^verbatim>\<open>queue = [p for p in queue if is_white(pixels[p])]\<close>. Every element is
  read, in order; the first failing read ends the comprehension with its exception.
\<close>

fun filter_queue :: "('p \<Rightarrow> bool) \<Rightarrow> 'p image \<Rightarrow> coord list \<Rightarrow> error + coord list" where
  "filter_queue matches im [] = Inr []"
| "filter_queue matches im (p # ps) =
     (case getpixel im p of
        Inl e \<Rightarrow> Inl e
      | Inr v \<Rightarrow>
          (case filter_queue matches im ps of
             Inl e \<Rightarrow> Inl e
           | Inr qs \<Rightarrow> Inr (if matches v then p # qs else qs)))"

text \<open>
  Lines 55 to 59: the loop over the four offsets. A neighbour is read only when it lies
  inside the image and is not yet visited (\<^verbatim>\<open>and\<close> evaluates its right operand only
  then), and it is appended to the queue when the pixel read matches.
\<close>

definition neighbor_offsets :: "coord list" where
  "neighbor_offsets = [(-1, 0), (1, 0), (0, -1), (0, 1)]"

fun check_neighbors ::
  "('p \<Rightarrow> bool) \<Rightarrow> 'p fill_state \<Rightarrow> coord \<Rightarrow> coord list \<Rightarrow> error + 'p fill_state" where
  "check_neighbors matches s c [] = Inr s"
| "check_neighbors matches s c (d # ds) =
     (let n = (fst c + fst d, snd c + snd d)
      in if inside (width (img s)) (height (img s)) n
         then if n \<notin> visited s
              then (case getpixel (img s) n of
                      Inl e \<Rightarrow> Inl e
                    | Inr v \<Rightarrow>
                        check_neighbors matches
                          (s\<lparr>queue := (if matches v then queue s @ [n] else queue s),
                             trace := trace s @ [Read n]\<rparr>) c ds)
              else check_neighbors matches s c ds
         else check_neighbors matches s c ds)"

text \<open>
  Lines 46 to 59: one iteration of the \<^verbatim>\<open>while\<close> loop, entered with a non-empty queue.
  \<^verbatim>\<open>queue.pop(0)\<close> removes the head; a visited coordinate is skipped by
  \<^verbatim>\<open>continue\<close>; otherwise it is added to \<^verbatim>\<open>visited\<close>, recoloured, and its
  neighbours are examined. For an empty queue, which the loop never passes to its body,
  the state is returned as it is.
\<close>

definition fill_step :: "('p \<Rightarrow> bool) \<Rightarrow> 'p \<Rightarrow> 'p fill_state \<Rightarrow> error + 'p fill_state" where
  "fill_step matches target s =
     (case queue s of
        [] \<Rightarrow> Inr s
      | c # rest \<Rightarrow>
          if c \<in> visited s then Inr (s\<lparr>queue := rest\<rparr>)
          else (case putpixel (img s) c target of
                  Inl e \<Rightarrow> Inl e
                | Inr im' \<Rightarrow>
                    check_neighbors matches
                      (s\<lparr>img := im', visited := insert c (visited s), queue := rest,
                         trace := trace s @ [Write c]\<rparr>)
                      c neighbor_offsets))"

subsection \<open>The loop, and why it stops\<close>

text \<open>
  What bounds the loop: a coordinate that is recoloured was not visited before and lies,
  after the library's index wrapping, inside the image; there are finitely many such
  coordinates, and an iteration that recolours nothing shortens the queue.
\<close>

definition unvisited_room :: "'p fill_state \<Rightarrow> nat" where
  "unvisited_room s =
     card (({- width (img s)..<width (img s)} \<times> {- height (img s)..<height (img s)})
           - visited s)"

lemma getpixel_inside:
  "inside (width im) (height im) p \<Longrightarrow> getpixel im p = Inr (pixels im p)"
  by (cases p) (simp add: getpixel_def wrap_xy_def inside_def)

lemma putpixel_inside:
  "inside (width im) (height im) p \<Longrightarrow> putpixel im p v = Inr (im\<lparr>pixels := (pixels im)(p := v)\<rparr>)"
  by (cases p) (simp add: putpixel_def wrap_xy_def inside_def)

text \<open>
  The coordinates the loop over the offsets looks at, in order.
\<close>

definition shifted :: "coord \<Rightarrow> coord list \<Rightarrow> coord list" where
  "shifted c ds = map (\<lambda>d. (fst c + fst d, snd c + snd d)) ds"

lemma check_neighbors_eq:
  "check_neighbors matches s c ds =
     Inr (s\<lparr>queue := queue s @
                filter (\<lambda>n. inside (width (img s)) (height (img s)) n \<and> n \<notin> visited s
                              \<and> matches (pixels (img s) n)) (shifted c ds),
             trace := trace s @
                map Read (filter (\<lambda>n. inside (width (img s)) (height (img s)) n \<and> n \<notin> visited s)
                   (shifted c ds))\<rparr>)"
proof (induction ds arbitrary: s)
  case Nil
  show ?case by (simp add: shifted_def)
next
  case (Cons d ds)
  show ?case
    by (simp add: Cons.IH Let_def getpixel_inside shifted_def)
qed

lemma putpixel_Inr:
  "putpixel im c v = Inr im' \<Longrightarrow>
     inside (width im) (height im) (wrap_xy im c) \<and>
     im' = im\<lparr>pixels := (pixels im)(wrap_xy im c := v)\<rparr>"
  by (auto simp: putpixel_def Let_def split: if_splits)

lemma wrap_xy_room:
  assumes "inside (width im) (height im) (wrap_xy im c)"
  shows "c \<in> {- width im..<width im} \<times> {- height im..<height im}"
proof (cases c)
  case (Pair x y)
  with assms show ?thesis
    by (auto simp: inside_def wrap_xy_def split: if_splits)
qed

lemma fill_step_progress:
  assumes "fill_step matches target s = Inr s'" and "queue s \<noteq> []"
  shows "width (img s') = width (img s) \<and> height (img s') = height (img s) \<and>
         ((visited s' = visited s \<and> length (queue s') < length (queue s)) \<or>
          (\<exists>c. c \<notin> visited s \<and> inside (width (img s)) (height (img s)) (wrap_xy (img s) c)
               \<and> visited s' = insert c (visited s)))"
proof -
  from assms(2) obtain c rest where q: "queue s = c # rest" by (cases "queue s") auto
  show ?thesis
  proof (cases "c \<in> visited s")
    case True
    with q assms(1) have "s' = s\<lparr>queue := rest\<rparr>" by (simp add: fill_step_def)
    with q show ?thesis by simp
  next
    case False
    with q assms(1) obtain im' where put: "putpixel (img s) c target = Inr im'"
      and s': "check_neighbors matches
                 (s\<lparr>img := im', visited := insert c (visited s), queue := rest,
                    trace := trace s @ [Write c]\<rparr>) c neighbor_offsets = Inr s'"
      by (auto simp: fill_step_def split: sum.splits)
    from putpixel_Inr[OF put] have ins: "inside (width (img s)) (height (img s)) (wrap_xy (img s) c)"
      and im': "im' = (img s)\<lparr>pixels := (pixels (img s))(wrap_xy (img s) c := target)\<rparr>" by auto
    from s' have "img s' = im'" and "visited s' = insert c (visited s)"
      by (auto simp: check_neighbors_eq)
    with im' ins False show ?thesis by (cases c) auto
  qed
qed

lemma fill_step_decreases:
  assumes "fill_step matches target s = Inr s'" and "queue s \<noteq> []"
  shows "unvisited_room s' < unvisited_room s \<or>
         (unvisited_room s' = unvisited_room s \<and> length (queue s') < length (queue s))"
proof -
  let ?B = "{- width (img s)..<width (img s)} \<times> {- height (img s)..<height (img s)}"
  from fill_step_progress[OF assms]
  have wh: "width (img s') = width (img s)" "height (img s') = height (img s)"
    and alt: "(visited s' = visited s \<and> length (queue s') < length (queue s)) \<or>
          (\<exists>c. c \<notin> visited s \<and> inside (width (img s)) (height (img s)) (wrap_xy (img s) c)
               \<and> visited s' = insert c (visited s))" by auto
  from alt show ?thesis
  proof
    assume "visited s' = visited s \<and> length (queue s') < length (queue s)"
    with wh show ?thesis by (simp add: unvisited_room_def)
  next
    assume "\<exists>c. c \<notin> visited s \<and> inside (width (img s)) (height (img s)) (wrap_xy (img s) c)
               \<and> visited s' = insert c (visited s)"
    then obtain c where c: "c \<notin> visited s"
      and ins: "inside (width (img s)) (height (img s)) (wrap_xy (img s) c)"
      and v: "visited s' = insert c (visited s)" by blast
    from wrap_xy_room[OF ins] c have mem: "c \<in> ?B - visited s" by simp
    have fin: "finite (?B - visited s)" by simp
    have "?B - visited s' = (?B - visited s) - {c}" using v by auto
    then have "card (?B - visited s') < card (?B - visited s)"
      using card_Diff1_less[OF fin mem] by simp
    with wh show ?thesis by (simp add: unvisited_room_def)
  qed
qed

text \<open>
  Lines 45 to 59: the \<^verbatim>\<open>while queue:\<close> loop. An exception raised by an iteration
  leaves the loop.
\<close>

function fill_loop :: "('p \<Rightarrow> bool) \<Rightarrow> 'p \<Rightarrow> 'p fill_state \<Rightarrow> error + 'p fill_state" where
  "fill_loop matches target s =
     (if queue s = [] then Inr s
      else (case fill_step matches target s of
              Inl e \<Rightarrow> Inl e
            | Inr s' \<Rightarrow> fill_loop matches target s'))"
  by pat_completeness auto
termination
proof (relation "measures [\<lambda>(m, t, s). unvisited_room s, \<lambda>(m, t, s). length (queue s)]")
  show "wf (measures [\<lambda>(m :: 'p \<Rightarrow> bool, t :: 'p, s). unvisited_room s, \<lambda>(m, t, s). length (queue s)])"
    by simp
next
  fix matches :: "'p \<Rightarrow> bool" and target :: 'p and s s' :: "'p fill_state"
  assume "queue s \<noteq> []" and "fill_step matches target s = Inr s'"
  from fill_step_decreases[OF this(2) this(1)]
  show "((matches, target, s'), (matches, target, s))
         \<in> measures [\<lambda>(m, t, s). unvisited_room s, \<lambda>(m, t, s). length (queue s)]"
    by auto
qed

declare fill_loop.simps [simp del]

text \<open>
  Lines 29 to 42: the state in which the loop is entered.
\<close>

definition fill_start :: "('p \<Rightarrow> bool) \<Rightarrow> 'p image \<Rightarrow> error + 'p fill_state" where
  "fill_start matches im =
     (let q0 = border_queue (width im) (height im)
      in case filter_queue matches im q0 of
           Inl e \<Rightarrow> Inl e
         | Inr q \<Rightarrow> Inr \<lparr>img = im, visited = {}, queue = q, trace = map Read q0\<rparr>)"

text \<open>
  Lines 29 to 59 as a whole, from the image to the state in which the loop ends, and the
  image alone, which is what the rest of the script goes on to use.
\<close>

definition fill_run :: "('p \<Rightarrow> bool) \<Rightarrow> 'p \<Rightarrow> 'p image \<Rightarrow> error + 'p fill_state" where
  "fill_run matches target im =
     (case fill_start matches im of
        Inl e \<Rightarrow> Inl e
      | Inr s \<Rightarrow> fill_loop matches target s)"

definition fill :: "('p \<Rightarrow> bool) \<Rightarrow> 'p \<Rightarrow> 'p image \<Rightarrow> error + 'p image" where
  "fill matches target im =
     (case fill_run matches target im of Inl e \<Rightarrow> Inl e | Inr s \<Rightarrow> Inr (img s))"

text \<open>
  The loop cut off after at most \<open>n\<close> iterations, to count them: the state after \<open>n\<close>
  iterations, or the final state if the queue empties earlier.
\<close>

primrec fill_iterate ::
  "nat \<Rightarrow> ('p \<Rightarrow> bool) \<Rightarrow> 'p \<Rightarrow> 'p fill_state \<Rightarrow> error + 'p fill_state" where
  "fill_iterate 0 matches target s = Inr s"
| "fill_iterate (Suc n) matches target s =
     (if queue s = [] then Inr s
      else (case fill_step matches target s of
              Inl e \<Rightarrow> Inl e
            | Inr s' \<Rightarrow> fill_iterate n matches target s'))"

section \<open>The script around the fill\<close>

text \<open>
  \<^verbatim>\<open>img.save(path)\<close> of the imaging library works in two stages: it finds the encoder
  for the file name and opens the file for writing, which creates it or empties the file
  that was there; then it encodes the image into the open file. So a save ends in one of
  three ways: the image is saved; an exception is raised before the file was opened
  (the directory is missing, the path is not writable), and nothing at the path has
  changed; or an exception is raised once the file is open (the disk is full), and an empty
  or cut-off file is left at the path in place of what was there.
\<close>

datatype saving = Saved | Refused string | Broken string

text \<open>
  What the script asks of the imaging library and the file system, and what may go wrong
  there, is a parameter of the model: \<open>open_image\<close> is
  \<^verbatim>\<open>Image.open(path).convert("RGBA")\<close>, the image or the message of the exception
  raised; \<open>save_image\<close> is how saving an image under a path ends, with the message of
  the exception if one is raised; \<open>resize\<close> is \<^verbatim>\<open>img.resize(size, LANCZOS)\<close>, whose
  resampling arithmetic is not modelled.
\<close>

record collaborators =
  open_image :: "string \<Rightarrow> string + rgba image"
  save_image :: "string \<Rightarrow> rgba image \<Rightarrow> saving"
  resize :: "rgba image \<Rightarrow> int \<times> int \<Rightarrow> string + rgba image"

text \<open>
  What a run leaves behind: for every file it opened for writing, in order, the path and
  what is now at that path, a whole image or the empty or cut-off file of a save that
  broke off (either replaces what was at the path before the run); and the lines printed.
\<close>

datatype written = Whole "rgba image" | Partial

record outcome =
  saved :: "(string \<times> written) list"
  printed :: "string list"

definition print_line :: "string \<Rightarrow> outcome \<Rightarrow> outcome" where
  "print_line l w = w\<lparr>printed := printed w @ [l]\<rparr>"

definition save :: "collaborators \<Rightarrow> rgba image \<Rightarrow> string \<Rightarrow> outcome \<Rightarrow> (string \<times> outcome) + outcome" where
  "save env im path w =
     (case save_image env path im of
        Saved \<Rightarrow> Inr (w\<lparr>saved := saved w @ [(path, Whole im)]\<rparr>)
      | Refused msg \<Rightarrow> Inl (msg, w)
      | Broken msg \<Rightarrow> Inl (msg, w\<lparr>saved := saved w @ [(path, Partial)]\<rparr>))"

text \<open>
  Lines 68 to 73; a dictionary is iterated in insertion order.
\<close>

definition sizes :: "(string \<times> (int \<times> int)) list" where
  "sizes =
     [(''public/icons/icon-1024.png'', (1024, 1024)),
      (''public/icons/icon-512.png'', (512, 512)),
      (''public/icons/icon-192.png'', (192, 192)),
      (''public/apple-touch-icon.png'', (180, 180))]"

text \<open>
  Lines 76 to 78, and 81 to 83 for the favicon: resize, save, report. An exception raised
  by the resizing leaves the outcome as it was before the step; one raised by the save
  leaves what the save left.
\<close>

definition generate ::
  "collaborators \<Rightarrow> rgba image \<Rightarrow> string \<times> (int \<times> int) \<Rightarrow> outcome \<Rightarrow> (string \<times> outcome) + outcome" where
  "generate env im ps w =
     (case resize env im (snd ps) of
        Inl msg \<Rightarrow> Inl (msg, w)
      | Inr resized \<Rightarrow>
          (case save env resized (fst ps) w of
             Inl x \<Rightarrow> Inl x
           | Inr w' \<Rightarrow> Inr (print_line (''Generated '' @ fst ps) w')))"

fun generate_all ::
  "collaborators \<Rightarrow> rgba image \<Rightarrow> (string \<times> (int \<times> int)) list \<Rightarrow> outcome
     \<Rightarrow> (string \<times> outcome) + outcome" where
  "generate_all env im [] w = Inr w"
| "generate_all env im (ps # rest) w =
     (case generate env im ps w of
        Inl x \<Rightarrow> Inl x
      | Inr w' \<Rightarrow> generate_all env im rest w')"

fun error_message :: "error \<Rightarrow> string" where
  "error_message IndexError = ''image index out of range''"

text \<open>
  Lines 7 to 83, the body of the \<^verbatim>\<open>try\<close>: \<open>Inl\<close> carries the message of the
  exception raised and what had been written and printed by then.
\<close>

definition script_body :: "collaborators \<Rightarrow> (string \<times> outcome) + outcome" where
  "script_body env =
     (let w0 = \<lparr>saved = [], printed = []\<rparr>
      in case open_image env ''public/gimmies-app-logo.png'' of
           Inl msg \<Rightarrow> Inl (msg, w0)
         | Inr im \<Rightarrow>
             (case fill is_white target_green im of
                Inl e \<Rightarrow> Inl (error_message e, w0)
              | Inr im' \<Rightarrow>
                  (case save env im' ''public/gimmies_app_icon.png''
                          (print_line ''Flood fill complete.'' w0) of
                     Inl x \<Rightarrow> Inl x
                   | Inr w1 \<Rightarrow>
                       (case generate_all env im' sizes
                               (print_line ''Saved fixed public/gimmies_app_icon.png'' w1) of
                          Inl x \<Rightarrow> Inl x
                        | Inr w2 \<Rightarrow> generate env im' (''public/favicon.png'', (64, 64)) w2))))"

text \<open>
  Lines 85 and 86: \<^verbatim>\<open>except Exception as e: print(f"Error: {e}")\<close>. The function
  returns normally in both cases.
\<close>

definition fix_icon_and_generate_favicon :: "collaborators \<Rightarrow> outcome" where
  "fix_icon_and_generate_favicon env =
     (case script_body env of
        Inl (msg, w) \<Rightarrow> print_line (''Error: '' @ msg) w
      | Inr w \<Rightarrow> w)"

section \<open>Vocabulary of the specification\<close>

text \<open>
  The outer ring of a \<open>w\<close> by \<open>h\<close> image: the coordinates inside it with \<open>x\<close> in
  \<open>{0, w - 1}\<close> or \<open>y\<close> in \<open>{0, h - 1}\<close>.
\<close>

definition on_border :: "int \<Rightarrow> int \<Rightarrow> coord \<Rightarrow> bool" where
  "on_border w h = (\<lambda>(x, y). inside w h (x, y) \<and> (x = 0 \<or> x = w - 1 \<or> y = 0 \<or> y = h - 1))"

text \<open>
  4-connected: two coordinates differ by exactly one unit in exactly one axis.
\<close>

definition adjacent4 :: "coord \<Rightarrow> coord \<Rightarrow> bool" where
  "adjacent4 = (\<lambda>(x, y) (x', y'). \<bar>x - x'\<bar> + \<bar>y - y'\<bar> = 1)"

text \<open>
  The region the fill is meant to recolour, read on the input image: a border pixel that
  satisfies the predicate belongs to it, and so does every pixel inside the image that
  satisfies the predicate and is adjacent to a pixel of the region.
\<close>

inductive_set border_region :: "('p \<Rightarrow> bool) \<Rightarrow> 'p image \<Rightarrow> coord set"
  for matches :: "'p \<Rightarrow> bool" and im :: "'p image" where
  seed: "on_border (width im) (height im) c \<Longrightarrow> matches (pixels im c)
           \<Longrightarrow> c \<in> border_region matches im"
| spread: "c \<in> border_region matches im \<Longrightarrow> adjacent4 c n
           \<Longrightarrow> inside (width im) (height im) n \<Longrightarrow> matches (pixels im n)
           \<Longrightarrow> n \<in> border_region matches im"

text \<open>
  The same region in terms of paths: a non-empty list of coordinates that starts on the
  border, stays inside the image on pixels that satisfy the predicate, and moves between
  4-connected coordinates.
\<close>

definition border_path :: "('p \<Rightarrow> bool) \<Rightarrow> 'p image \<Rightarrow> coord list \<Rightarrow> bool" where
  "border_path matches im cs \<longleftrightarrow>
     cs \<noteq> [] \<and> on_border (width im) (height im) (hd cs) \<and>
     (\<forall>c \<in> set cs. inside (width im) (height im) c \<and> matches (pixels im c)) \<and>
     successively adjacent4 cs"

text \<open>
  The coordinates written, in order, and the coordinate of an access.
\<close>

primrec writes :: "access list \<Rightarrow> coord list" where
  "writes [] = []"
| "writes (a # as) = (case a of Read c \<Rightarrow> writes as | Write c \<Rightarrow> c # writes as)"

primrec touched :: "access \<Rightarrow> coord" where
  "touched (Read c) = c"
| "touched (Write c) = c"

text \<open>
  No third value: every pixel of \<open>im'\<close> is the pixel of \<open>im\<close> at that coordinate or the
  target colour.
\<close>

definition input_or_target :: "'p image \<Rightarrow> 'p \<Rightarrow> 'p image \<Rightarrow> bool" where
  "input_or_target im target im' \<longleftrightarrow>
     (\<forall>c. pixels im' c = pixels im c \<or> pixels im' c = target)"

text \<open>
  The six files of a complete run, in the order the script writes them, each with the size
  it is resized to; the master icon is the filled image itself and has none.
\<close>

definition outputs :: "(string \<times> (int \<times> int) option) list" where
  "outputs =
     (''public/gimmies_app_icon.png'', None) #
     map (\<lambda>(path, sz). (path, Some sz)) sizes @ [(''public/favicon.png'', Some (64, 64))]"

text \<open>
  How the step for one output ends in an environment, given the filled image: the image
  that is written, or the message of the exception raised and whether an empty or cut-off
  file is left at the path. This is read off the environment alone, not off the script.
\<close>

datatype step_result = Wrote "rgba image" | Raised string bool

definition attempt ::
  "collaborators \<Rightarrow> rgba image \<Rightarrow> string \<times> (int \<times> int) option \<Rightarrow> step_result" where
  "attempt env im out =
     (case (case snd out of None \<Rightarrow> Inr im | Some sz \<Rightarrow> resize env im sz) of
        Inl msg \<Rightarrow> Raised msg False
      | Inr r \<Rightarrow>
          (case save_image env (fst out) r of
             Saved \<Rightarrow> Wrote r
           | Refused msg \<Rightarrow> Raised msg False
           | Broken msg \<Rightarrow> Raised msg True))"

text \<open>
  The line the script prints after each output; the five outputs that are resized from
  the master icon; what a run left at their paths; the error reports it printed.
\<close>

definition report_lines :: "string list" where
  "report_lines =
     ''Saved fixed public/gimmies_app_icon.png'' #
     map (\<lambda>out. ''Generated '' @ fst out) (tl outputs)"

definition derived_paths :: "string list" where
  "derived_paths = map fst (tl outputs)"

definition derived_written :: "outcome \<Rightarrow> (string \<times> written) list" where
  "derived_written w = filter (\<lambda>f. fst f \<in> set derived_paths) (saved w)"

definition error_lines :: "outcome \<Rightarrow> string list" where
  "error_lines w = filter (\<lambda>l. take 7 l = ''Error: '') (printed w)"

text \<open>
  The reading of ``aborts without partial writes of downstream derived sizes'' under which
  a failed run leaves none of the derived sizes behind.
\<close>

definition aborts_without_partial_writes :: "collaborators \<Rightarrow> bool" where
  "aborts_without_partial_writes env \<longleftrightarrow>
     (isl (script_body env) \<longrightarrow> derived_written (fix_icon_and_generate_favicon env) = [])"

section \<open>Example inputs\<close>

text \<open>
  A strip of three white pixels; a 3 by 3 image whose only white pixel is the centre; a 5 by
  5 white image with a closed black ring around its white centre. The third colour is
  one the script's predicate accepts.
\<close>

definition white :: rgba where "white = (255, 255, 255, 255)"

definition black :: rgba where "black = (0, 0, 0, 255)"

definition near_white :: rgba where "near_white = (250, 250, 250, 255)"

definition strip3 :: "rgba image" where
  "strip3 = \<lparr>width = 3, height = 1, pixels = (\<lambda>_. white)\<rparr>"

definition ring3 :: "rgba image" where
  "ring3 = \<lparr>width = 3, height = 3, pixels = (\<lambda>c. if c = (1, 1) then white else black)\<rparr>"

definition moat5 :: "rgba image" where
  "moat5 = \<lparr>width = 5, height = 5,
     pixels = (\<lambda>c. if c \<in> {(1, 1), (2, 1), (3, 1), (1, 2), (3, 2), (1, 3), (2, 3), (3, 3)}
                    then black else white)\<rparr>"

text \<open>
  What the fill makes of the strip, and a stand-in for the resampling that returns a green
  image of the size asked for.
\<close>

definition strip3_filled :: "rgba image" where
  "strip3_filled =
     \<lparr>width = 3, height = 1,
      pixels = (\<lambda>_. white)((0, 0) := target_green, (1, 0) := target_green,
                            (2, 0) := target_green)\<rparr>"

definition flat_resize :: "rgba image \<Rightarrow> int \<times> int \<Rightarrow> string + rgba image" where
  "flat_resize im sz = Inr \<lparr>width = fst sz, height = snd sz, pixels = (\<lambda>_. target_green)\<rparr>"

text \<open>
  The square green image that stand-in returns for a square size.
\<close>

definition green_icon :: "int \<Rightarrow> rgba image" where
  "green_icon n = \<lparr>width = n, height = n, pixels = (\<lambda>_. target_green)\<rparr>"

text \<open>
  Four environments, all with the strip as the logo: nothing fails; the disk fills up while
  the second derived size is being written; the directory \<^verbatim>\<open>public/icons\<close> does not
  exist; the logo itself is missing.
\<close>

definition all_fine :: collaborators where
  "all_fine =
     \<lparr>open_image = (\<lambda>_. Inr strip3), save_image = (\<lambda>path im. Saved), resize = flat_resize\<rparr>"

definition disk_full_at_512 :: collaborators where
  "disk_full_at_512 =
     all_fine\<lparr>save_image := (\<lambda>path im. if path = ''public/icons/icon-512.png''
                                     then Broken ''No space left on device'' else Saved)\<rparr>"

definition icons_directory_missing :: collaborators where
  "icons_directory_missing =
     all_fine\<lparr>save_image := (\<lambda>path im. if take 13 path = ''public/icons/''
                                     then Refused ''No such file or directory'' else Saved)\<rparr>"

definition source_missing :: collaborators where
  "source_missing = all_fine\<lparr>open_image := (\<lambda>_. Inl ''No such file or directory'')\<rparr>"

section \<open>The loop invariant\<close>

lemma writes_append: "writes (as @ bs) = writes as @ writes bs"
  by (induction as) (auto split: access.splits)

lemma writes_map_Read: "writes (map Read cs) = []"
  by (induction cs) auto

lemma set_border_queue:
  assumes "1 \<le> w" and "1 \<le> h"
  shows "set (border_queue w h) = {c. on_border w h c}"
  using assms by (auto simp: border_queue_def on_border_def inside_def)

lemma border_region_inside:
  "c \<in> border_region matches im \<Longrightarrow> inside (width im) (height im) c"
  by (induction rule: border_region.induct) (auto simp: on_border_def)

lemma border_region_matches:
  "c \<in> border_region matches im \<Longrightarrow> matches (pixels im c)"
  by (induction rule: border_region.induct) auto

lemma adjacent4_shifted:
  "adjacent4 c n \<longleftrightarrow> n \<in> set (shifted c neighbor_offsets)"
proof (cases c, cases n)
  fix x y x' y' assume "c = (x, y)" "n = (x', y')"
  then show ?thesis
    by (auto simp: adjacent4_def shifted_def neighbor_offsets_def)
qed

lemma filter_queue_inside:
  "\<forall>c \<in> set cs. inside (width im) (height im) c \<Longrightarrow>
     filter_queue matches im cs = Inr (filter (\<lambda>c. matches (pixels im c)) cs)"
  by (induction cs) (auto simp: getpixel_inside)

lemma fill_step_skip:
  "queue s = c # rest \<Longrightarrow> c \<in> visited s \<Longrightarrow> fill_step matches target s = Inr (s\<lparr>queue := rest\<rparr>)"
  by (simp add: fill_step_def)

lemma fill_step_visit:
  assumes "queue s = c # rest" and "c \<notin> visited s"
    and "inside (width (img s)) (height (img s)) c"
  shows "\<exists>s'. fill_step matches target s = Inr s' \<and>
           img s' = (img s)\<lparr>pixels := (pixels (img s))(c := target)\<rparr> \<and>
           visited s' = insert c (visited s) \<and>
           queue s' = rest @ filter (\<lambda>n. inside (width (img s)) (height (img s)) n
                              \<and> n \<notin> insert c (visited s)
                              \<and> matches (((pixels (img s))(c := target)) n))
                           (shifted c neighbor_offsets) \<and>
           trace s' = trace s @ Write c #
                        map Read (filter (\<lambda>n. inside (width (img s)) (height (img s)) n
                              \<and> n \<notin> insert c (visited s)) (shifted c neighbor_offsets))"
  using assms by (simp add: fill_step_def putpixel_inside check_neighbors_eq)

text \<open>
  What holds of the state whenever the loop condition is tested, for the input image
  \<open>im\<close>: the image keeps its size; visited and queued coordinates belong to the border
  region; a pixel is the target colour exactly when it is visited and has its input value
  otherwise; every matching border pixel is visited or queued; every matching neighbour
  inside the image of a visited pixel is visited or queued; the writes so far are the
  visited coordinates, each once; every access so far was inside the image; and the
  accesses began with the reads of all seeds.
\<close>

definition fill_inv :: "('p \<Rightarrow> bool) \<Rightarrow> 'p \<Rightarrow> 'p image \<Rightarrow> 'p fill_state \<Rightarrow> bool" where
  "fill_inv matches target im s \<longleftrightarrow>
     width (img s) = width im \<and> height (img s) = height im \<and>
     visited s \<subseteq> border_region matches im \<and>
     set (queue s) \<subseteq> border_region matches im \<and>
     (\<forall>p. pixels (img s) p = (if p \<in> visited s then target else pixels im p)) \<and>
     (\<forall>c. on_border (width im) (height im) c \<and> matches (pixels im c)
            \<longrightarrow> c \<in> visited s \<union> set (queue s)) \<and>
     (\<forall>c n. c \<in> visited s \<and> adjacent4 c n \<and> inside (width im) (height im) n
            \<and> matches (pixels im n) \<longrightarrow> n \<in> visited s \<union> set (queue s)) \<and>
     distinct (writes (trace s)) \<and> set (writes (trace s)) = visited s \<and>
     (\<forall>a \<in> set (trace s). inside (width im) (height im) (touched a)) \<and>
     (\<exists>later. trace s = map Read (border_queue (width im) (height im)) @ later)"

lemma fill_inv_skip:
  assumes inv: "fill_inv matches target im s" and q: "queue s = c # rest" and v: "c \<in> visited s"
  shows "fill_inv matches target im (s\<lparr>queue := rest\<rparr>)"
proof -
  have "set (queue (s\<lparr>queue := rest\<rparr>)) \<subseteq> set (queue s)"
    and "visited s \<union> set (queue s) \<subseteq> visited (s\<lparr>queue := rest\<rparr>) \<union> set (queue (s\<lparr>queue := rest\<rparr>))"
    using q v by auto
  with inv show ?thesis unfolding fill_inv_def
    by (simp del: split_paired_All split_paired_Ex) blast
qed

lemma fill_inv_visit:
  assumes inv: "fill_inv matches target im s" and q: "queue s = c # rest" and v: "c \<notin> visited s"
    and im': "img s' = (img s)\<lparr>pixels := (pixels (img s))(c := target)\<rparr>"
    and v': "visited s' = insert c (visited s)"
    and q': "queue s' = rest @ filter (\<lambda>n. inside (width (img s)) (height (img s)) n
                              \<and> n \<notin> insert c (visited s)
                              \<and> matches (((pixels (img s))(c := target)) n))
                           (shifted c neighbor_offsets)"
    and t': "trace s' = trace s @ Write c #
                        map Read (filter (\<lambda>n. inside (width (img s)) (height (img s)) n
                              \<and> n \<notin> insert c (visited s)) (shifted c neighbor_offsets))"
  shows "fill_inv matches target im s'"
proof -
  let ?R = "border_region matches im"
  from inv have wh: "width (img s) = width im" "height (img s) = height im"
    and vis: "visited s \<subseteq> ?R" and qs: "set (queue s) \<subseteq> ?R"
    and px: "\<And>p. pixels (img s) p = (if p \<in> visited s then target else pixels im p)"
    and seeds: "\<And>a. on_border (width im) (height im) a \<Longrightarrow> matches (pixels im a)
                  \<Longrightarrow> a \<in> visited s \<union> set (queue s)"
    and closed: "\<And>a n. a \<in> visited s \<Longrightarrow> adjacent4 a n \<Longrightarrow> inside (width im) (height im) n
                  \<Longrightarrow> matches (pixels im n) \<Longrightarrow> n \<in> visited s \<union> set (queue s)"
    and dw: "distinct (writes (trace s))" and sw: "set (writes (trace s)) = visited s"
    and tr: "\<And>a. a \<in> set (trace s) \<Longrightarrow> inside (width im) (height im) (touched a)"
    and pre: "\<exists>later. trace s = map Read (border_queue (width im) (height im)) @ later"
    unfolding fill_inv_def by blast+
  from q qs have cR: "c \<in> ?R" by simp
  have cin: "inside (width im) (height im) c" using cR by (rule border_region_inside)
  have unv: "\<And>n. n \<notin> insert c (visited s) \<Longrightarrow> ((pixels (img s))(c := target)) n = pixels im n"
    by (simp add: px)
  have q'': "queue s' = rest @ filter (\<lambda>n. inside (width im) (height im) n
                              \<and> n \<notin> insert c (visited s) \<and> matches (pixels im n))
                           (shifted c neighbor_offsets)"
    unfolding q' wh by (rule arg_cong[where f = "\<lambda>x. rest @ x"], rule filter_cong) (auto simp: px)
  have 1: "width (img s') = width im \<and> height (img s') = height im"
    using im' wh by simp
  have 2: "visited s' \<subseteq> ?R" using v' vis cR by simp
  have 3: "set (queue s') \<subseteq> ?R"
  proof
    fix n assume "n \<in> set (queue s')"
    then consider "n \<in> set rest"
      | "adjacent4 c n" "inside (width im) (height im) n" "matches (pixels im n)"
      unfolding q'' by (auto simp: adjacent4_shifted)
    then show "n \<in> ?R"
    proof cases
      case 1 with q qs show ?thesis by auto
    next
      case 2 with cR show ?thesis by (rule border_region.spread)
    qed
  qed
  have 4: "\<forall>p. pixels (img s') p = (if p \<in> visited s' then target else pixels im p)"
    using im' v' px by simp
  have 5: "\<forall>a. on_border (width im) (height im) a \<and> matches (pixels im a)
            \<longrightarrow> a \<in> visited s' \<union> set (queue s')"
  proof (intro allI impI)
    fix a assume "on_border (width im) (height im) a \<and> matches (pixels im a)"
    then have "a \<in> visited s \<union> set (queue s)" using seeds by blast
    then show "a \<in> visited s' \<union> set (queue s')" unfolding v' q'' q by auto
  qed
  have 6: "\<forall>a n. a \<in> visited s' \<and> adjacent4 a n \<and> inside (width im) (height im) n
            \<and> matches (pixels im n) \<longrightarrow> n \<in> visited s' \<union> set (queue s')"
  proof (intro allI impI)
    fix a n assume h: "a \<in> visited s' \<and> adjacent4 a n \<and> inside (width im) (height im) n
            \<and> matches (pixels im n)"
    show "n \<in> visited s' \<union> set (queue s')"
    proof (cases "a = c")
      case True
      with h have "n \<in> set (shifted c neighbor_offsets)" by (simp add: adjacent4_shifted)
      with h show ?thesis unfolding v' q'' by auto
    next
      case False
      with h v' have "a \<in> visited s" by simp
      with h have "n \<in> visited s \<union> set (queue s)" using closed by blast
      then show ?thesis unfolding v' q'' q by auto
    qed
  qed
  have w': "writes (trace s') = writes (trace s) @ [c]"
    unfolding t' by (simp add: writes_append writes_map_Read)
  have 7: "distinct (writes (trace s')) \<and> set (writes (trace s')) = visited s'"
    using dw sw v v' by (auto simp: w')
  have 8: "\<forall>a \<in> set (trace s'). inside (width im) (height im) (touched a)"
    unfolding t' using tr cin wh by auto
  have 9: "\<exists>later. trace s' = map Read (border_queue (width im) (height im)) @ later"
    using pre unfolding t' by auto
  from 1 2 3 4 5 6 7 8 9 show ?thesis unfolding fill_inv_def by blast
qed

lemma fill_inv_step:
  assumes inv: "fill_inv matches target im s" and ne: "queue s \<noteq> []"
  shows "\<exists>s'. fill_step matches target s = Inr s' \<and> fill_inv matches target im s'"
proof -
  from ne obtain c rest where q: "queue s = c # rest" by (cases "queue s") auto
  show ?thesis
  proof (cases "c \<in> visited s")
    case True
    with fill_step_skip[OF q True] fill_inv_skip[OF inv q True] show ?thesis by blast
  next
    case False
    from inv q have "c \<in> border_region matches im" unfolding fill_inv_def by auto
    then have "inside (width im) (height im) c" by (rule border_region_inside)
    with inv have cin: "inside (width (img s)) (height (img s)) c" unfolding fill_inv_def by simp
    from fill_step_visit[OF q False cin, of matches target]
    obtain s' where st: "fill_step matches target s = Inr s'"
      and f: "img s' = (img s)\<lparr>pixels := (pixels (img s))(c := target)\<rparr>"
         "visited s' = insert c (visited s)"
         "queue s' = rest @ filter (\<lambda>n. inside (width (img s)) (height (img s)) n
                              \<and> n \<notin> insert c (visited s)
                              \<and> matches (((pixels (img s))(c := target)) n))
                           (shifted c neighbor_offsets)"
         "trace s' = trace s @ Write c #
                        map Read (filter (\<lambda>n. inside (width (img s)) (height (img s)) n
                              \<and> n \<notin> insert c (visited s)) (shifted c neighbor_offsets))"
      by blast
    from fill_inv_visit[OF inv q False f] st show ?thesis by blast
  qed
qed

lemma fill_loop_inv:
  "fill_inv matches target im s \<Longrightarrow>
     \<exists>s'. fill_loop matches target s = Inr s' \<and> fill_inv matches target im s' \<and> queue s' = []"
proof (induction matches target s rule: fill_loop.induct)
  case (1 matches target s)
  show ?case
  proof (cases "queue s = []")
    case True
    with "1.prems" show ?thesis by (simp add: fill_loop.simps[of matches target s])
  next
    case False
    from fill_inv_step[OF "1.prems" False] obtain s1
      where st: "fill_step matches target s = Inr s1" and inv1: "fill_inv matches target im s1"
      by blast
    from "1.IH"[OF False st inv1] obtain s' where
      "fill_loop matches target s1 = Inr s'" "fill_inv matches target im s'" "queue s' = []"
      by blast
    with False st show ?thesis by (simp add: fill_loop.simps[of matches target s])
  qed
qed

lemma fill_inv_final:
  assumes inv: "fill_inv matches target im s" and e: "queue s = []"
  shows "visited s = border_region matches im"
proof
  show "visited s \<subseteq> border_region matches im" using inv unfolding fill_inv_def by blast
  show "border_region matches im \<subseteq> visited s"
  proof
    fix c assume "c \<in> border_region matches im"
    then show "c \<in> visited s"
    proof (induction rule: border_region.induct)
      case (seed c)
      with inv e show ?case unfolding fill_inv_def by (simp del: split_paired_All)
    next
      case (spread c n)
      with inv e show ?case unfolding fill_inv_def by (simp del: split_paired_All)
    qed
  qed
qed

lemma border_queue_inside:
  assumes "1 \<le> w" and "1 \<le> h" and "c \<in> set (border_queue w h)"
  shows "inside w h c"
  using assms by (cases c) (simp add: set_border_queue on_border_def)

lemma filter_border_queue:
  assumes "1 \<le> width im" and "1 \<le> height im"
  shows "filter_queue matches im (border_queue (width im) (height im))
           = Inr (filter (\<lambda>c. matches (pixels im c)) (border_queue (width im) (height im)))"
  using border_queue_inside[OF assms] by (intro filter_queue_inside ballI)

lemma fill_inv_init:
  assumes "1 \<le> width im" and "1 \<le> height im"
  shows "fill_inv matches target im
           \<lparr>img = im, visited = {},
            queue = filter (\<lambda>c. matches (pixels im c)) (border_queue (width im) (height im)),
            trace = map Read (border_queue (width im) (height im))\<rparr>"
  unfolding fill_inv_def using border_queue_inside[OF assms] assms
  by (auto simp: writes_map_Read set_border_queue intro: border_region.seed)

lemma fill_run_spec:
  assumes "1 \<le> width im" and "1 \<le> height im"
  shows "\<exists>s. fill_run matches target im = Inr s \<and> fill_inv matches target im s \<and> queue s = []"
  using filter_border_queue[OF assms, of matches] fill_inv_init[OF assms, of matches target]
    fill_loop_inv[of matches target im
      "\<lparr>img = im, visited = {},
            queue = filter (\<lambda>c. matches (pixels im c)) (border_queue (width im) (height im)),
            trace = map Read (border_queue (width im) (height im))\<rparr>"]
  by (simp add: fill_run_def fill_start_def Let_def)

subsection \<open>The region as the set of end points of paths from the border\<close>

lemma border_region_path:
  "c \<in> border_region matches im \<Longrightarrow> \<exists>cs. border_path matches im cs \<and> last cs = c"
proof (induction rule: border_region.induct)
  case (seed c)
  then have "border_path matches im [c]"
    by (cases c) (simp add: border_path_def on_border_def)
  then show ?case by (intro exI[of _ "[c]"]) simp
next
  case (spread c n)
  then obtain cs where p: "border_path matches im cs" and l: "last cs = c" by blast
  from p have ne: "cs \<noteq> []" by (simp add: border_path_def)
  have "border_path matches im (cs @ [n])"
    using p l ne spread.hyps(2,3,4)
    by (auto simp: border_path_def successively_append_iff)
  then show ?case by (intro exI[of _ "cs @ [n]"]) simp
qed

lemma path_border_region:
  "border_path matches im cs \<Longrightarrow> last cs \<in> border_region matches im"
proof (induction cs rule: rev_induct)
  case Nil
  then show ?case by (simp add: border_path_def)
next
  case (snoc n cs)
  show ?case
  proof (cases "cs = []")
    case True
    with snoc.prems show ?thesis
      by (auto simp: border_path_def intro: border_region.seed)
  next
    case False
    with snoc.prems have p: "border_path matches im cs" and adj: "adjacent4 (last cs) n"
      and n: "inside (width im) (height im) n" "matches (pixels im n)"
      by (auto simp: border_path_def successively_append_iff)
    from snoc.IH[OF p] adj n have "n \<in> border_region matches im"
      by (rule border_region.spread)
    then show ?thesis by simp
  qed
qed

lemma border_region_eq_paths:
  "border_region matches im = {c. \<exists>cs. border_path matches im cs \<and> last cs = c}"
  using border_region_path path_border_region by blast

subsection \<open>Images without pixels, and properties of every run\<close>

lemma fill_start_degenerate:
  assumes "fill_start matches im = Inr s" and "\<not> (1 \<le> width im \<and> 1 \<le> height im)"
  shows "border_queue (width im) (height im) = []"
proof -
  let ?w = "width im" and ?h = "height im"
  have bad: "getpixel im (0, 0) = Inl IndexError"
    using assms(2) by (auto simp: getpixel_def wrap_xy_def inside_def)
  from assms(1) obtain q where f: "filter_queue matches im (border_queue ?w ?h) = Inr q"
    by (auto simp: fill_start_def Let_def split: sum.splits)
  show ?thesis
  proof (cases "1 \<le> ?w")
    case True
    then have "border_queue ?w ?h = (0, 0) # tl (border_queue ?w ?h)"
      by (simp add: border_queue_def upto_rec1[of 0 "?w - 1"])
    moreover have "filter_queue matches im ((0, 0) # tl (border_queue ?w ?h)) = Inl IndexError"
      using bad by simp
    ultimately have "filter_queue matches im (border_queue ?w ?h) = Inl IndexError"
      by simp
    with f show ?thesis by simp
  next
    case False
    show ?thesis
    proof (cases "1 \<le> ?h")
      case True
      with False have "border_queue ?w ?h = (0, 0) # tl (border_queue ?w ?h)"
        by (simp add: border_queue_def upto_rec1[of 0 "?h - 1"])
      moreover have "filter_queue matches im ((0, 0) # tl (border_queue ?w ?h)) = Inl IndexError"
        using bad by simp
      ultimately have "filter_queue matches im (border_queue ?w ?h) = Inl IndexError"
        by simp
      with f show ?thesis by simp
    next
      case False
      with \<open>\<not> 1 \<le> ?w\<close> show ?thesis by (simp add: border_queue_def)
    qed
  qed
qed

lemma fill_run_inv:
  assumes "fill_run matches target im = Inr s"
  shows "fill_inv matches target im s \<and> queue s = []"
proof (cases "1 \<le> width im \<and> 1 \<le> height im")
  case True
  with fill_run_spec[of im matches target] assms show ?thesis by auto
next
  case False
  from assms obtain s0 where s0: "fill_start matches im = Inr s0"
    and l: "fill_loop matches target s0 = Inr s"
    by (auto simp: fill_run_def split: sum.splits)
  from fill_start_degenerate[OF s0 False] s0
  have s0_eq: "s0 = \<lparr>img = im, visited = {}, queue = [], trace = []\<rparr>"
    by (simp add: fill_start_def)
  have "fill_loop matches target \<lparr>img = im, visited = {}, queue = [], trace = []\<rparr>
          = Inr \<lparr>img = im, visited = {}, queue = [], trace = []\<rparr>"
    by (simp add: fill_loop.simps[of _ _ "\<lparr>img = im, visited = {}, queue = [], trace = []\<rparr>"])
  with l have s: "s = \<lparr>img = im, visited = {}, queue = [], trace = []\<rparr>"
    unfolding s0_eq by simp
  have "\<And>c. \<not> on_border (width im) (height im) c"
    using False by (auto simp: on_border_def inside_def)
  then show ?thesis unfolding s fill_inv_def
    using fill_start_degenerate[OF s0 False] by simp
qed

lemma fill_loop_iterate:
  "fill_loop matches target s = Inr s' \<Longrightarrow>
     \<exists>n. fill_iterate n matches target s = Inr s' \<and> queue s' = []"
proof (induction matches target s rule: fill_loop.induct)
  case (1 matches target s)
  show ?case
  proof (cases "queue s = []")
    case True
    with "1.prems" have "s' = s" by (simp add: fill_loop.simps[of matches target s])
    with True have "fill_iterate 0 matches target s = Inr s' \<and> queue s' = []" by simp
    then show ?thesis by blast
  next
    case False
    with "1.prems" obtain s1 where st: "fill_step matches target s = Inr s1"
      and l: "fill_loop matches target s1 = Inr s'"
      by (auto simp: fill_loop.simps[of matches target s] split: sum.splits)
    from "1.IH"[OF False st l] obtain n
      where "fill_iterate n matches target s1 = Inr s'" "queue s' = []" by blast
    with False st have "fill_iterate (Suc n) matches target s = Inr s' \<and> queue s' = []" by simp
    then show ?thesis by blast
  qed
qed

lemma fill_step_pixels:
  assumes "fill_step matches target s = Inr s'"
  shows "pixels (img s') c = pixels (img s) c \<or> pixels (img s') c = target"
proof (cases "queue s")
  case Nil
  with assms show ?thesis by (simp add: fill_step_def)
next
  case (Cons p rest)
  show ?thesis
  proof (cases "p \<in> visited s")
    case True
    with Cons assms show ?thesis by (auto simp: fill_step_def)
  next
    case False
    with Cons assms obtain im' where put: "putpixel (img s) p target = Inr im'"
      and "img s' = im'"
      by (auto simp: fill_step_def check_neighbors_eq split: sum.splits)
    with putpixel_Inr[OF put] show ?thesis by auto
  qed
qed

lemma fill_loop_pixels:
  "fill_loop matches target s = Inr s' \<Longrightarrow>
     pixels (img s') c = pixels (img s) c \<or> pixels (img s') c = target"
proof (induction matches target s rule: fill_loop.induct)
  case (1 matches target s)
  show ?case
  proof (cases "queue s = []")
    case True
    with "1.prems" show ?thesis by (simp add: fill_loop.simps[of matches target s])
  next
    case False
    with "1.prems" obtain s1 where st: "fill_step matches target s = Inr s1"
      and l: "fill_loop matches target s1 = Inr s'"
      by (auto simp: fill_loop.simps[of matches target s] split: sum.splits)
    from "1.IH"[OF False st l] fill_step_pixels[OF st, of c] show ?thesis by auto
  qed
qed

lemma fill_loop_empty: "queue s = [] \<Longrightarrow> fill_loop matches target s = Inr s"
  by (simp add: fill_loop.simps[of matches target s])

lemma fill_run_fill: "fill_run matches target im = Inr s \<Longrightarrow> fill matches target im = Inr (img s)"
  by (simp add: fill_def)

lemma fill_InrD: "fill matches target im = Inr im' \<Longrightarrow> \<exists>s. fill_run matches target im = Inr s \<and> img s = im'"
  by (auto simp: fill_def split: sum.splits)

lemma fill_run_region:
  assumes "fill_run matches target im = Inr s"
  shows "queue s = []" and "visited s = border_region matches im"
    and "set (writes (trace s)) = border_region matches im"
    and "distinct (writes (trace s))"
    and "width (img s) = width im" and "height (img s) = height im"
    and "pixels (img s) c = (if c \<in> border_region matches im then target else pixels im c)"
    and "a \<in> set (trace s) \<Longrightarrow> inside (width im) (height im) (touched a)"
proof -
  from fill_run_inv[OF assms] have inv: "fill_inv matches target im s" and e: "queue s = []"
    by auto
  show "queue s = []" by (rule e)
  show v: "visited s = border_region matches im" using inv e by (rule fill_inv_final)
  from inv have w: "set (writes (trace s)) = visited s" unfolding fill_inv_def by blast
  with v show "set (writes (trace s)) = border_region matches im" by simp
  from inv show "distinct (writes (trace s))" unfolding fill_inv_def by blast
  from inv show "width (img s) = width im" unfolding fill_inv_def by blast
  from inv show "height (img s) = height im" unfolding fill_inv_def by blast
  from inv have "pixels (img s) c = (if c \<in> visited s then target else pixels im c)"
    unfolding fill_inv_def by blast
  with v show "pixels (img s) c = (if c \<in> border_region matches im then target else pixels im c)"
    by simp
  from inv show "a \<in> set (trace s) \<Longrightarrow> inside (width im) (height im) (touched a)"
    unfolding fill_inv_def by blast
qed

lemma input_or_target_step:
  assumes "input_or_target im target (img s)" and "fill_step matches target s = Inr s'"
  shows "input_or_target im target (img s')"
  unfolding input_or_target_def
proof
  fix c
  from assms(1) have "pixels (img s) c = pixels im c \<or> pixels (img s) c = target"
    unfolding input_or_target_def by blast
  with fill_step_pixels[OF assms(2), of c]
  show "pixels (img s') c = pixels im c \<or> pixels (img s') c = target" by auto
qed

lemma fill_start_after_fill:
  assumes nt: "\<not> matches target" and r: "fill_run matches target im = Inr s"
  shows "fill_start matches (img s) =
           Inr \<lparr>img = img s, visited = {}, queue = [],
                trace = map Read (border_queue (width im) (height im))\<rparr>"
proof -
  note reg = fill_run_region[OF r]
  let ?bq = "border_queue (width im) (height im)"
  have "filter_queue matches (img s) ?bq = Inr []"
  proof (cases "1 \<le> width im \<and> 1 \<le> height im")
    case True
    then have wh: "1 \<le> width (img s)" "1 \<le> height (img s)" using reg(5,6) by simp_all
    have "\<not> matches (pixels (img s) c)" if "c \<in> set ?bq" for c
    proof (cases "c \<in> border_region matches im")
      case True
      with reg(7)[of c] nt show ?thesis by simp
    next
      case False
      from that True have ob: "on_border (width im) (height im) c"
        by (simp add: set_border_queue)
      from False ob have "\<not> matches (pixels im c)" using border_region.seed by blast
      with reg(7)[of c] False show ?thesis by simp
    qed
    then have "filter (\<lambda>c. matches (pixels (img s) c)) ?bq = []" by simp
    with filter_border_queue[OF wh, of matches] reg(5,6) show ?thesis by simp
  next
    case False
    from r obtain s0 where "fill_start matches im = Inr s0"
      by (auto simp: fill_run_def split: sum.splits)
    from fill_start_degenerate[OF this False] show ?thesis by simp
  qed
  then show ?thesis using reg(5,6) by (simp add: fill_start_def)
qed

subsection \<open>The model run on the example images\<close>

text \<open>
  The equations that run the model on a concrete image.
\<close>

lemmas fill_eval =
  fill_def fill_run_def fill_start_def border_queue_def upto_rec1 getpixel_def putpixel_def
  wrap_xy_def inside_def is_white_def white_def black_def near_white_def Let_def
  fill_loop.simps fill_step_def neighbor_offsets_def target_green_def

lemma strip3_run:
  "fill_run is_white target_green strip3 =
     Inr \<lparr>img = \<lparr>width = 3, height = 1,
                 pixels = (\<lambda>_. white)((0, 0) := target_green, (1, 0) := target_green,
                                       (2, 0) := target_green)\<rparr>,
          visited = {(2, 0), (1, 0), (0, 0)}, queue = [],
          trace = [Read (0, 0), Read (0, 0), Read (1, 0), Read (1, 0), Read (2, 0), Read (2, 0),
                   Read (0, 0), Read (2, 0), Write (0, 0), Read (1, 0), Write (1, 0),
                   Read (2, 0), Write (2, 0)]\<rparr>"
  by (simp add: fill_eval strip3_def)

lemma strip3_run_near_white:
  "fill_run is_white near_white strip3 =
     Inr \<lparr>img = \<lparr>width = 3, height = 1,
                 pixels = (\<lambda>_. white)((0, 0) := near_white, (1, 0) := near_white,
                                       (2, 0) := near_white)\<rparr>,
          visited = {(2, 0), (1, 0), (0, 0)}, queue = [],
          trace = [Read (0, 0), Read (0, 0), Read (1, 0), Read (1, 0), Read (2, 0), Read (2, 0),
                   Read (0, 0), Read (2, 0), Write (0, 0), Read (1, 0), Write (1, 0),
                   Read (2, 0), Write (2, 0)]\<rparr>"
  by (simp add: fill_eval strip3_def)

lemma ring3_run:
  "fill_run is_white target_green ring3 =
     Inr \<lparr>img = ring3, visited = {}, queue = [],
          trace = map Read (border_queue 3 3)\<rparr>"
  by (simp add: fill_eval ring3_def)

lemma moat5_run:
  "\<exists>s. fill_run is_white target_green moat5 = Inr s \<and>
       writes (trace s) =
         [(0, 0), (0, 4), (1, 0), (1, 4), (2, 0), (2, 4), (3, 0), (3, 4), (4, 0), (4, 4),
          (0, 1), (4, 1), (0, 2), (4, 2), (0, 3), (4, 3)]"
  by (simp add: fill_eval moat5_def)

lemma strip3_start:
  "fill_start is_white strip3 =
     Inr \<lparr>img = strip3, visited = {},
          queue = [(0, 0), (0, 0), (1, 0), (1, 0), (2, 0), (2, 0), (0, 0), (2, 0)],
          trace = map Read (border_queue 3 1)\<rparr>"
  by (simp add: fill_eval strip3_def)

lemma strip3_first_step:
  "fill_step is_white target_green
     \<lparr>img = strip3, visited = {},
      queue = [(0, 0), (0, 0), (1, 0), (1, 0), (2, 0), (2, 0), (0, 0), (2, 0)],
      trace = map Read (border_queue 3 1)\<rparr> =
   Inr \<lparr>img = strip3\<lparr>pixels := (pixels strip3)((0, 0) := target_green)\<rparr>,
        visited = {(0, 0)},
        queue = [(0, 0), (1, 0), (1, 0), (2, 0), (2, 0), (0, 0), (2, 0), (1, 0)],
        trace = map Read (border_queue 3 1) @ [Write (0, 0), Read (1, 0)]\<rparr>"
  by (simp add: fill_eval strip3_def)

lemma strip3_iterate:
  "\<exists>s0 s9 s. fill_start is_white strip3 = Inr s0 \<and>
      fill_iterate 9 is_white target_green s0 = Inr s9 \<and> queue s9 = [(2, 0)] \<and>
      fill_iterate 10 is_white target_green s0 = Inr s \<and> queue s = [] \<and>
      fill_run is_white target_green strip3 = Inr s"
  by (simp add: fill_eval strip3_def eval_nat_numeral)

lemma strip3_fill: "fill is_white target_green strip3 = Inr strip3_filled"
  using strip3_run by (simp add: fill_def strip3_filled_def)

section \<open>What the fill guarantees\<close>

text \<open>
  \<^bold>\<open>C1.\<close> For every image with width and height at least 1, every predicate and every
  target colour that the predicate rejects, the fill returns, and the coordinates it writes
  are exactly the border region of the input image: the pixels that satisfy the predicate
  in the input and are the end point of a 4-connected path, starting on the border, of
  pixels inside the image that all satisfy the predicate in the input. Each pixel of the
  region ends as the target colour and every other pixel keeps its input value, so a
  matching pixel enclosed by non-matching ones is not touched.
\<close>

theorem fill_recolors_border_region:
  assumes "1 \<le> width im" and "1 \<le> height im" and "\<not> matches target"
  shows "\<exists>s. fill_run matches target im = Inr s \<and> fill matches target im = Inr (img s) \<and>
           width (img s) = width im \<and> height (img s) = height im \<and>
           set (writes (trace s)) = border_region matches im \<and>
           (\<forall>c. pixels (img s) c = (if c \<in> border_region matches im then target else pixels im c)) \<and>
           border_region matches im = {c. \<exists>cs. border_path matches im cs \<and> last cs = c}"
proof -
  from fill_run_spec[OF assms(1,2)] obtain s where r: "fill_run matches target im = Inr s"
    by blast
  have "fill matches target im = Inr (img s)" using r by (rule fill_run_fill)
  moreover note fill_run_region(3,5,6)[OF r]
  moreover have "\<forall>c. pixels (img s) c = (if c \<in> border_region matches im then target else pixels im c)"
    using fill_run_region(7)[OF r] by blast
  moreover note border_region_eq_paths[of matches im]
  ultimately show ?thesis using r by blast
qed

theorem fill_recolors_border_region_witness:
  "1 \<le> width moat5 \<and> 1 \<le> height moat5 \<and> \<not> is_white target_green \<and>
   border_region is_white moat5 =
     {(0, 0), (0, 4), (1, 0), (1, 4), (2, 0), (2, 4), (3, 0), (3, 4), (4, 0), (4, 4),
      (0, 1), (4, 1), (0, 2), (4, 2), (0, 3), (4, 3)} \<and>
   (\<exists>im'. fill is_white target_green moat5 = Inr im' \<and>
      pixels im' (0, 0) = target_green \<and> pixels im' (4, 3) = target_green \<and>
      is_white (pixels moat5 (2, 2)) \<and> pixels im' (2, 2) = pixels moat5 (2, 2))"
proof -
  have h: "1 \<le> width moat5" "1 \<le> height moat5" "\<not> is_white target_green"
    by (simp_all add: moat5_def is_white_def target_green_def)
  from fill_recolors_border_region[where im = moat5 and matches = is_white
      and target = target_green] h obtain s where
    r: "fill_run is_white target_green moat5 = Inr s"
    and f: "fill is_white target_green moat5 = Inr (img s)"
    and w: "set (writes (trace s)) = border_region is_white moat5"
    and p: "\<And>c. pixels (img s) c
              = (if c \<in> border_region is_white moat5 then target_green else pixels moat5 c)"
    by blast
  from moat5_run r have "writes (trace s) =
         [(0, 0), (0, 4), (1, 0), (1, 4), (2, 0), (2, 4), (3, 0), (3, 4), (4, 0), (4, 4),
          (0, 1), (4, 1), (0, 2), (4, 2), (0, 3), (4, 3)]" by auto
  with w have reg: "border_region is_white moat5 =
     {(0, 0), (0, 4), (1, 0), (1, 4), (2, 0), (2, 4), (3, 0), (3, 4), (4, 0), (4, 4),
      (0, 1), (4, 1), (0, 2), (4, 2), (0, 3), (4, 3)}" by simp
  have "pixels (img s) (0, 0) = target_green" "pixels (img s) (4, 3) = target_green"
    "pixels (img s) (2, 2) = pixels moat5 (2, 2)"
    unfolding p reg by simp_all
  moreover have "is_white (pixels moat5 (2, 2))"
    by (simp add: moat5_def is_white_def white_def)
  ultimately show ?thesis using h reg f by blast
qed

text \<open>
  \<^bold>\<open>C2.\<close> ``Every pixel equals its input value or the target colour'' holds of the
  image when the loop is entered, is kept by every iteration of the loop, and holds of
  the image the fill returns, for every image, predicate and target.
\<close>

theorem fill_pixels_input_or_target:
  "(input_or_target im target (img s) \<and> fill_step matches target s = Inr s'
      \<longrightarrow> input_or_target im target (img s')) \<and>
   (fill_start matches im = Inr s0 \<longrightarrow> input_or_target im target (img s0)) \<and>
   (fill matches target im = Inr im' \<longrightarrow> input_or_target im target im')"
proof (intro conjI impI)
  assume a: "input_or_target im target (img s) \<and> fill_step matches target s = Inr s'"
  from a have "input_or_target im target (img s)" by simp
  moreover from a have "fill_step matches target s = Inr s'" by simp
  ultimately show "input_or_target im target (img s')" by (rule input_or_target_step)
next
  assume "fill_start matches im = Inr s0"
  then have "img s0 = im" by (auto simp: fill_start_def Let_def split: sum.splits)
  then show "input_or_target im target (img s0)" by (simp add: input_or_target_def)
next
  assume f: "fill matches target im = Inr im'"
  from fill_InrD[OF f] obtain s where r: "fill_run matches target im = Inr s" and i: "img s = im'"
    by blast
  from r obtain s1 where s1: "fill_start matches im = Inr s1"
    and l: "fill_loop matches target s1 = Inr s"
    by (auto simp: fill_run_def split: sum.splits)
  from s1 have "img s1 = im" by (auto simp: fill_start_def Let_def split: sum.splits)
  with fill_loop_pixels[OF l] i show "input_or_target im target im'"
    unfolding input_or_target_def by blast
qed

theorem fill_pixels_input_or_target_witness:
  "\<exists>s0 s1 im'.
     fill_start is_white strip3 = Inr s0 \<and> input_or_target strip3 target_green (img s0) \<and>
     fill_step is_white target_green s0 = Inr s1 \<and> pixels (img s1) (0, 0) = target_green \<and>
     input_or_target strip3 target_green (img s1) \<and>
     fill is_white target_green strip3 = Inr im' \<and> pixels im' (2, 0) = target_green \<and>
     input_or_target strip3 target_green im'"
proof -
  let ?s0 = "\<lparr>img = strip3, visited = {},
      queue = [(0, 0), (0, 0), (1, 0), (1, 0), (2, 0), (2, 0), (0, 0), (2, 0)],
      trace = map Read (border_queue 3 1)\<rparr>"
  let ?s1 = "\<lparr>img = strip3\<lparr>pixels := (pixels strip3)((0, 0) := target_green)\<rparr>,
        visited = {(0, 0)},
        queue = [(0, 0), (1, 0), (1, 0), (2, 0), (2, 0), (0, 0), (2, 0), (1, 0)],
        trace = map Read (border_queue 3 1) @ [Write (0, 0), Read (1, 0)]\<rparr>"
  let ?im' = "\<lparr>width = 3, height = 1,
                 pixels = (\<lambda>_. white)((0, 0) := target_green, (1, 0) := target_green,
                                       (2, 0) := target_green)\<rparr>"
  have f: "fill is_white target_green strip3 = Inr ?im'"
    using strip3_run by (simp add: fill_def)
  from fill_pixels_input_or_target[where im = strip3 and target = target_green
      and matches = is_white and s = ?s0 and s' = ?s1 and ?s0.0 = ?s0 and im' = ?im']
    strip3_start strip3_first_step f
  have "input_or_target strip3 target_green (img ?s0)"
    and "input_or_target strip3 target_green (img ?s1)"
    and "input_or_target strip3 target_green ?im'"
    by simp_all
  with strip3_start strip3_first_step f show ?thesis
    by (intro exI[of _ ?s0] exI[of _ ?s1] exI[of _ ?im']) simp
qed

text \<open>
  \<^bold>\<open>C3.\<close> In a run of the fill no coordinate is written twice, although the queue may
  hold a coordinate several times; the coordinates written are exactly the final visited
  set; a visited pixel ends as the target colour and every pixel outside the visited set
  has its input value.
\<close>

theorem fill_writes_each_visited_once:
  assumes "fill_run matches target im = Inr s"
  shows "distinct (writes (trace s)) \<and> set (writes (trace s)) = visited s \<and>
         (\<forall>c. c \<notin> visited s \<longrightarrow> pixels (img s) c = pixels im c) \<and>
         (\<forall>c. c \<in> visited s \<longrightarrow> pixels (img s) c = target)"
proof -
  note r = fill_run_region[OF assms]
  have "pixels (img s) c = (if c \<in> visited s then target else pixels im c)" for c
    using r(7)[of c] r(2) by simp
  then have "\<forall>c. c \<notin> visited s \<longrightarrow> pixels (img s) c = pixels im c"
    and "\<forall>c. c \<in> visited s \<longrightarrow> pixels (img s) c = target" by simp_all
  with r(4) r(3) r(2) show ?thesis by simp
qed

theorem fill_writes_each_visited_once_witness:
  "\<exists>s. fill_run is_white target_green strip3 = Inr s \<and>
       count_list (border_queue (width strip3) (height strip3)) (0, 0) = 3 \<and>
       writes (trace s) = [(0, 0), (1, 0), (2, 0)] \<and>
       distinct (writes (trace s)) \<and> set (writes (trace s)) = visited s \<and>
       pixels (img s) (0, 0) = target_green \<and> pixels (img s) (0, 1) = pixels strip3 (0, 1)"
proof -
  let ?s = "\<lparr>img = \<lparr>width = 3, height = 1,
                 pixels = (\<lambda>_. white)((0, 0) := target_green, (1, 0) := target_green,
                                       (2, 0) := target_green)\<rparr>,
          visited = {(2, 0), (1, 0), (0, 0)}, queue = [],
          trace = [Read (0, 0), Read (0, 0), Read (1, 0), Read (1, 0), Read (2, 0), Read (2, 0),
                   Read (0, 0), Read (2, 0), Write (0, 0), Read (1, 0), Write (1, 0),
                   Read (2, 0), Write (2, 0)]\<rparr>"
  from fill_writes_each_visited_once[OF strip3_run]
  have "distinct (writes (trace ?s))" and "set (writes (trace ?s)) = visited ?s"
    and "(0, 1) \<notin> visited ?s \<longrightarrow> pixels (img ?s) (0, 1) = pixels strip3 (0, 1)"
    and "(0, 0) \<in> visited ?s \<longrightarrow> pixels (img ?s) (0, 0) = target_green"
    by blast+
  moreover have "count_list (border_queue (width strip3) (height strip3)) (0, 0) = 3"
    by (simp add: strip3_def border_queue_def upto_rec1)
  ultimately show ?thesis using strip3_run
    by (intro exI[of _ ?s]) simp
qed

text \<open>
  \<^bold>\<open>C4.\<close> For every image with width and height at least 1, every predicate and every
  target colour the fill terminates: the start state exists (no seed read fails), and
  after some finite number \<open>n\<close> of iterations of the loop body the queue is empty; that
  state is what the fill returns.
\<close>

theorem fill_terminates:
  assumes "1 \<le> width im" and "1 \<le> height im"
  shows "\<exists>s0 n s. fill_start matches im = Inr s0 \<and>
           fill_iterate n matches target s0 = Inr s \<and> queue s = [] \<and>
           fill_run matches target im = Inr s \<and> fill matches target im = Inr (img s)"
proof -
  from fill_run_spec[OF assms] obtain s where r: "fill_run matches target im = Inr s"
    by blast
  then obtain s0 where s0: "fill_start matches im = Inr s0"
    and l: "fill_loop matches target s0 = Inr s"
    by (auto simp: fill_run_def split: sum.splits)
  from fill_loop_iterate[OF l] obtain n
    where "fill_iterate n matches target s0 = Inr s" "queue s = []" by blast
  with s0 r fill_run_fill[OF r] show ?thesis by blast
qed

theorem fill_terminates_witness:
  "1 \<le> width strip3 \<and> 1 \<le> height strip3 \<and>
   (\<exists>s0 n s. fill_start is_white strip3 = Inr s0 \<and>
           fill_iterate n is_white target_green s0 = Inr s \<and> queue s = [] \<and>
           fill_run is_white target_green strip3 = Inr s \<and>
           fill is_white target_green strip3 = Inr (img s)) \<and>
   (\<exists>s0 s9 s. fill_start is_white strip3 = Inr s0 \<and>
      fill_iterate 9 is_white target_green s0 = Inr s9 \<and> queue s9 = [(2, 0)] \<and>
      fill_iterate 10 is_white target_green s0 = Inr s \<and> queue s = [] \<and>
      fill_run is_white target_green strip3 = Inr s)"
proof -
  have h: "1 \<le> width strip3" "1 \<le> height strip3" by (simp_all add: strip3_def)
  from fill_terminates[OF h, of is_white target_green] h strip3_iterate show ?thesis by blast
qed

text \<open>
  \<^bold>\<open>C5.\<close> Idempotence. When the predicate rejects the target colour, running the fill
  on its own result gives that result again; the second run filters the border seeds down
  to the empty queue, visits nothing and writes nothing.
\<close>

theorem fill_idempotent:
  assumes "\<not> matches target"
  shows "(case fill matches target im of Inl e \<Rightarrow> Inl e | Inr im' \<Rightarrow> fill matches target im')
           = fill matches target im \<and>
         (\<forall>s. fill_run matches target im = Inr s \<longrightarrow>
            filter_queue matches (img s) (border_queue (width (img s)) (height (img s))) = Inr [] \<and>
            (\<exists>s2. fill_run matches target (img s) = Inr s2 \<and> img s2 = img s \<and>
                  visited s2 = {} \<and> writes (trace s2) = []))"
proof -
  have second: "fill_run matches target (img s) =
      Inr \<lparr>img = img s, visited = {}, queue = [],
           trace = map Read (border_queue (width im) (height im))\<rparr>"
    if r: "fill_run matches target im = Inr s" for s
    using fill_start_after_fill[OF assms r] by (simp add: fill_run_def fill_loop_empty)
  have a: "(case fill matches target im of Inl e \<Rightarrow> Inl e | Inr im' \<Rightarrow> fill matches target im')
           = fill matches target im"
  proof (cases "fill_run matches target im")
    case (Inl e)
    then show ?thesis by (simp add: fill_def)
  next
    case (Inr s)
    from second[OF Inr] Inr show ?thesis by (simp add: fill_def)
  qed
  have b: "filter_queue matches (img s) (border_queue (width (img s)) (height (img s))) = Inr [] \<and>
            (\<exists>s2. fill_run matches target (img s) = Inr s2 \<and> img s2 = img s \<and>
                  visited s2 = {} \<and> writes (trace s2) = [])"
    if r: "fill_run matches target im = Inr s" for s
  proof -
    from fill_start_after_fill[OF assms r]
    have "filter_queue matches (img s) (border_queue (width (img s)) (height (img s))) = Inr []"
      by (auto simp: fill_start_def Let_def split: sum.splits)
    with second[OF r] show ?thesis by (simp add: writes_map_Read)
  qed
  from a b show ?thesis by blast
qed

theorem fill_idempotent_witness:
  "\<not> is_white target_green \<and>
   (\<exists>im'. fill is_white target_green strip3 = Inr im' \<and> im' \<noteq> strip3 \<and>
          fill is_white target_green im' = Inr im' \<and>
          filter_queue is_white im' (border_queue (width im') (height im')) = Inr [])"
proof -
  let ?s = "\<lparr>img = \<lparr>width = 3, height = 1,
                 pixels = (\<lambda>_. white)((0, 0) := target_green, (1, 0) := target_green,
                                       (2, 0) := target_green)\<rparr>,
          visited = {(2, 0), (1, 0), (0, 0)}, queue = [],
          trace = [Read (0, 0), Read (0, 0), Read (1, 0), Read (1, 0), Read (2, 0), Read (2, 0),
                   Read (0, 0), Read (2, 0), Write (0, 0), Read (1, 0), Write (1, 0),
                   Read (2, 0), Write (2, 0)]\<rparr>"
  have h: "\<not> is_white target_green" by (simp add: is_white_def target_green_def)
  have f: "fill is_white target_green strip3 = Inr (img ?s)"
    using strip3_run by (simp add: fill_def)
  from fill_idempotent[where matches = is_white and target = target_green and im = strip3]
    h f strip3_run
  have "fill is_white target_green (img ?s) = Inr (img ?s)"
    and "filter_queue is_white (img ?s) (border_queue (width (img ?s)) (height (img ?s))) = Inr []"
    by simp_all
  moreover have "img ?s \<noteq> strip3"
  proof
    assume "img ?s = strip3"
    then have "pixels (img ?s) (0, 0) = pixels strip3 (0, 0)" by simp
    then show False by (simp add: strip3_def white_def target_green_def)
  qed
  ultimately show ?thesis using h f by blast
qed

text \<open>
  \<^bold>\<open>C6.\<close> For an image (width and height at least 1) none of whose border pixels
  satisfies the predicate, the filtered seed list is empty, the loop body never runs (the
  final state is the start state, whose trace holds the seed reads only), and the image
  returned is the input image.
\<close>

theorem fill_noop_without_matching_border:
  assumes "1 \<le> width im" and "1 \<le> height im"
    and "\<forall>c. on_border (width im) (height im) c \<longrightarrow> \<not> matches (pixels im c)"
  shows "fill matches target im = Inr im \<and>
         filter_queue matches im (border_queue (width im) (height im)) = Inr [] \<and>
         fill_run matches target im =
           Inr \<lparr>img = im, visited = {}, queue = [],
                trace = map Read (border_queue (width im) (height im))\<rparr>"
proof -
  let ?bq = "border_queue (width im) (height im)"
  have "\<not> matches (pixels im c)" if "c \<in> set ?bq" for c
  proof -
    from that assms(1,2) have "on_border (width im) (height im) c"
      by (simp add: set_border_queue)
    with assms(3) show ?thesis by blast
  qed
  then have "filter (\<lambda>c. matches (pixels im c)) ?bq = []" by simp
  with filter_border_queue[OF assms(1,2), of matches]
  have f: "filter_queue matches im ?bq = Inr []" by simp
  then have "fill_run matches target im =
           Inr \<lparr>img = im, visited = {}, queue = [], trace = map Read ?bq\<rparr>"
    by (simp add: fill_run_def fill_start_def fill_loop_empty)
  with f show ?thesis by (simp add: fill_def)
qed

theorem fill_noop_without_matching_border_witness:
  "1 \<le> width ring3 \<and> 1 \<le> height ring3 \<and> is_white (pixels ring3 (1, 1)) \<and>
   set (border_queue (width ring3) (height ring3)) =
     {(0, 0), (1, 0), (2, 0), (0, 1), (2, 1), (0, 2), (1, 2), (2, 2)} \<and>
   fill is_white target_green ring3 = Inr ring3"
proof -
  have h: "1 \<le> width ring3" "1 \<le> height ring3" by (simp_all add: ring3_def)
  have b: "\<forall>c. on_border (width ring3) (height ring3) c \<longrightarrow> \<not> is_white (pixels ring3 c)"
    by (auto simp: ring3_def on_border_def is_white_def black_def)
  have "is_white (pixels ring3 (1, 1))" by (simp add: ring3_def is_white_def white_def)
  moreover have "set (border_queue (width ring3) (height ring3)) =
     {(0, 0), (1, 0), (2, 0), (0, 1), (2, 1), (0, 2), (1, 2), (2, 2)}"
    by (auto simp: ring3_def border_queue_def upto_rec1)
  ultimately show ?thesis
    using fill_noop_without_matching_border[OF h b, of target_green] h by blast
qed

text \<open>
  \<^bold>\<open>C7.\<close> The script's predicate holds exactly when each of the red, green and blue
  channels exceeds 200 (between 78 and 79 percent of 255); the alpha channel plays no
  part; and it rejects the script's target colour \<open>(17, 124, 50, 255)\<close>.
\<close>

theorem is_white_threshold:
  "is_white (r, g, b, a) = (200 < r \<and> 200 < g \<and> 200 < b) \<and>
   is_white (r, g, b, a) = is_white (r, g, b, a') \<and>
   is_white (201, 201, 201, 0) \<and> \<not> is_white (200, 255, 255, 255) \<and>
   \<not> is_white (255, 200, 255, 255) \<and> \<not> is_white (255, 255, 200, 255) \<and>
   78 * 255 \<le> (200 * 100 :: int) \<and> (200 * 100 :: int) < 79 * 255 \<and>
   target_green = (17, 124, 50, 255) \<and> \<not> is_white target_green"
  by (simp add: is_white_def target_green_def)

section \<open>What the script does when a step fails\<close>

text \<open>
  A save and a derived-size step of the script, in terms of how the step ends in the
  environment.
\<close>

lemma save_attempt:
  "save env im path w =
     (case attempt env im (path, None) of
        Wrote r \<Rightarrow> Inr (w\<lparr>saved := saved w @ [(path, Whole r)]\<rparr>)
      | Raised msg left \<Rightarrow>
          Inl (msg, w\<lparr>saved := saved w @ (if left then [(path, Partial)] else [])\<rparr>))"
  by (simp add: save_def attempt_def split: saving.splits)

lemma generate_attempt:
  "generate env im (path, sz) w =
     (case attempt env im (path, Some sz) of
        Wrote r \<Rightarrow> Inr (w\<lparr>saved := saved w @ [(path, Whole r)],
                         printed := printed w @ [''Generated '' @ path]\<rparr>)
      | Raised msg left \<Rightarrow>
          Inl (msg, w\<lparr>saved := saved w @ (if left then [(path, Partial)] else [])\<rparr>))"
  by (simp add: generate_def save_def attempt_def print_line_def split: sum.splits saving.splits)

text \<open>
  The entry of \<open>outputs\<close> for a path and size of the script's table.
\<close>

definition sized :: "string \<times> (int \<times> int) \<Rightarrow> string \<times> (int \<times> int) option" where
  "sized = (\<lambda>(path, sz). (path, Some sz))"

lemma fst_sized: "fst (sized p) = fst p"
  by (cases p) (simp add: sized_def)

lemma generate_all_Wrote:
  "map (attempt env im) (map sized ps) = map Wrote rs \<Longrightarrow>
     generate_all env im ps w =
       Inr (w\<lparr>saved := saved w @ zip (map fst ps) (map Whole rs),
              printed := printed w @ map (\<lambda>p. ''Generated '' @ fst p) ps\<rparr>)"
proof (induction ps arbitrary: rs w)
  case Nil
  then show ?case by simp
next
  case (Cons p ps)
  obtain path sz where p: "p = (path, sz)" by (cases p)
  from Cons.prems obtain r rs' where rs: "rs = r # rs'"
    and a: "attempt env im (path, Some sz) = Wrote r"
    and rest: "map (attempt env im) (map sized ps) = map Wrote rs'"
    by (cases rs) (auto simp: p sized_def)
  show ?case
    by (simp add: p rs generate_attempt a Cons.IH[OF rest])
qed

lemma generate_all_Raised:
  "k < length ps \<Longrightarrow> map (attempt env im) (take k (map sized ps)) = map Wrote rs \<Longrightarrow>
   attempt env im (map sized ps ! k) = Raised msg left \<Longrightarrow>
     generate_all env im ps w =
       Inl (msg, w\<lparr>saved := saved w @ zip (map fst (take k ps)) (map Whole rs) @
                              (if left then [(fst (ps ! k), Partial)] else []),
                    printed := printed w @ map (\<lambda>p. ''Generated '' @ fst p) (take k ps)\<rparr>)"
proof (induction ps arbitrary: k rs w)
  case Nil
  then show ?case by simp
next
  case (Cons p ps)
  obtain path sz where p: "p = (path, sz)" by (cases p)
  show ?case
  proof (cases k)
    case 0
    with Cons.prems have "attempt env im (path, Some sz) = Raised msg left"
      by (simp add: p sized_def)
    with 0 Cons.prems(2) show ?thesis by (simp add: p generate_attempt)
  next
    case (Suc j)
    with Cons.prems obtain r rs' where rs: "rs = r # rs'"
      and a: "attempt env im (path, Some sz) = Wrote r"
      and rest: "map (attempt env im) (take j (map sized ps)) = map Wrote rs'"
      by (cases rs) (auto simp: p sized_def)
    from Suc Cons.prems have j: "j < length ps"
      and f: "attempt env im (map sized ps ! j) = Raised msg left" by simp_all
    show ?thesis
      by (simp add: p rs Suc generate_attempt a Cons.IH[OF j rest f])
  qed
qed

lemma generate_all_snoc:
  "generate_all env im (ps @ [q]) w =
     (case generate_all env im ps w of Inl x \<Rightarrow> Inl x | Inr w' \<Rightarrow> generate env im q w')"
  by (induction ps arbitrary: w) (auto split: sum.splits)

text \<open>
  The size loop and the favicon step are one loop over five sizes.
\<close>

definition derived :: "(string \<times> (int \<times> int)) list" where
  "derived = sizes @ [(''public/favicon.png'', (64, 64))]"

lemma outputs_derived: "outputs = (''public/gimmies_app_icon.png'', None) # map sized derived"
  by (simp add: outputs_def derived_def sized_def)

lemma report_lines_derived:
  "report_lines =
     ''Saved fixed public/gimmies_app_icon.png'' # map (\<lambda>p. ''Generated '' @ fst p) derived"
  by (simp add: report_lines_def outputs_derived fst_sized)

lemma script_body_filled:
  assumes "open_image env ''public/gimmies-app-logo.png'' = Inr im0"
    and "fill is_white target_green im0 = Inr im"
  shows "script_body env =
     (case save env im ''public/gimmies_app_icon.png''
             \<lparr>saved = [], printed = [''Flood fill complete.'']\<rparr> of
        Inl x \<Rightarrow> Inl x
      | Inr w1 \<Rightarrow>
          generate_all env im derived (print_line ''Saved fixed public/gimmies_app_icon.png'' w1))"
  using assms
  by (simp add: script_body_def Let_def derived_def generate_all_snoc print_line_def
      split: sum.splits)

lemma report_lines_no_error: "filter (\<lambda>l. take 7 l = ''Error: '') (take k report_lines) = []"
proof -
  have "\<forall>l \<in> set report_lines. take 7 l \<noteq> ''Error: ''"
    by (simp add: report_lines_def outputs_def sizes_def)
  moreover have "set (take k report_lines) \<subseteq> set report_lines" by (rule set_take_subset)
  ultimately show ?thesis by (auto simp: filter_empty_conv)
qed

lemma fst_comp_sized: "fst \<circ> sized = fst"
  by (rule ext) (simp add: fst_sized)

lemma run_source_missing:
  assumes "open_image env ''public/gimmies-app-logo.png'' = Inl msg"
  shows "fix_icon_and_generate_favicon env = \<lparr>saved = [], printed = [''Error: '' @ msg]\<rparr>"
  using assms by (simp add: fix_icon_and_generate_favicon_def script_body_def print_line_def)

lemma run_step_raises:
  assumes o: "open_image env ''public/gimmies-app-logo.png'' = Inr im0"
    and f: "fill is_white target_green im0 = Inr im"
    and k: "k < length outputs"
    and before: "map (attempt env im) (take k outputs) = map Wrote rs"
    and at: "attempt env im (outputs ! k) = Raised msg left"
  shows "saved (fix_icon_and_generate_favicon env) =
           zip (map fst (take k outputs)) (map Whole rs) @
           (if left then [(fst (outputs ! k), Partial)] else [])"
    and "printed (fix_icon_and_generate_favicon env) =
           ''Flood fill complete.'' # take k report_lines @ [''Error: '' @ msg]"
proof -
  let ?run = "fix_icon_and_generate_favicon env"
  let ?master = "''public/gimmies_app_icon.png''"
  note body = script_body_filled[OF o f]
  have both: "saved ?run =
           zip (map fst (take k outputs)) (map Whole rs) @
           (if left then [(fst (outputs ! k), Partial)] else []) \<and>
        printed ?run = ''Flood fill complete.'' # take k report_lines @ [''Error: '' @ msg]"
  proof (cases k)
    case 0
    with at have a: "attempt env im (?master, None) = Raised msg left"
      by (simp add: outputs_derived)
    from 0 before have "rs = []" by simp
    with 0 a show ?thesis
      by (simp add: fix_icon_and_generate_favicon_def body save_attempt print_line_def
          outputs_derived)
  next
    case (Suc j)
    with before obtain r rs' where rs: "rs = r # rs'"
      and a: "attempt env im (?master, None) = Wrote r"
      and rest: "map (attempt env im) (take j (map sized derived)) = map Wrote rs'"
      by (cases rs) (auto simp: outputs_derived)
    from Suc k have j: "j < length derived" by (simp add: outputs_derived)
    from Suc at have r: "attempt env im (map sized derived ! j) = Raised msg left"
      by (simp add: outputs_derived)
    have fsts: "map fst (take j (map sized derived)) = map fst (take j derived)"
      by (simp add: take_map fst_sized)
    have nth: "fst (map sized derived ! j) = fst (derived ! j)"
      using j by (simp add: fst_sized)
    show ?thesis
      by (simp add: fix_icon_and_generate_favicon_def body save_attempt a
          generate_all_Raised[OF j rest r] print_line_def Suc rs outputs_derived
          report_lines_derived fsts nth take_map fst_comp_sized)
  qed
  from both show "saved ?run =
           zip (map fst (take k outputs)) (map Whole rs) @
           (if left then [(fst (outputs ! k), Partial)] else [])" by simp
  from both show "printed ?run = ''Flood fill complete.'' # take k report_lines @ [''Error: '' @ msg]"
    by simp
qed

lemma run_no_step_raises:
  assumes o: "open_image env ''public/gimmies-app-logo.png'' = Inr im0"
    and f: "fill is_white target_green im0 = Inr im"
    and all: "map (attempt env im) outputs = map Wrote rs"
  shows "saved (fix_icon_and_generate_favicon env) = zip (map fst outputs) (map Whole rs)"
    and "printed (fix_icon_and_generate_favicon env) = ''Flood fill complete.'' # report_lines"
proof -
  let ?run = "fix_icon_and_generate_favicon env"
  let ?master = "''public/gimmies_app_icon.png''"
  note body = script_body_filled[OF o f]
  from all obtain r rs' where rs: "rs = r # rs'"
    and a: "attempt env im (?master, None) = Wrote r"
    and rest: "map (attempt env im) (map sized derived) = map Wrote rs'"
    by (cases rs) (auto simp: outputs_derived)
  have fsts: "map fst (map sized derived) = map fst derived"
    by (simp add: fst_sized)
  have both: "saved ?run = zip (map fst outputs) (map Whole rs) \<and>
      printed ?run = ''Flood fill complete.'' # report_lines"
    using fsts
    by (simp add: fix_icon_and_generate_favicon_def body save_attempt a
        generate_all_Wrote[OF rest] print_line_def rs outputs_derived report_lines_derived
        fst_comp_sized)
  from both show "saved ?run = zip (map fst outputs) (map Whole rs)" by simp
  from both show "printed ?run = ''Flood fill complete.'' # report_lines" by simp
qed

text \<open>
  The equations that run the model of the script in a concrete environment.
\<close>

lemmas script_eval =
  fix_icon_and_generate_favicon_def script_body_def save_def generate_def print_line_def
  sizes_def Let_def flat_resize_def green_icon_def

lemma disk_full_at_512_run:
  "script_body disk_full_at_512 =
     Inl (''No space left on device'',
          \<lparr>saved = [(''public/gimmies_app_icon.png'', Whole strip3_filled),
                    (''public/icons/icon-1024.png'', Whole (green_icon 1024)),
                    (''public/icons/icon-512.png'', Partial)],
           printed = [''Flood fill complete.'', ''Saved fixed public/gimmies_app_icon.png'',
                      ''Generated public/icons/icon-1024.png'']\<rparr>)"
  by (simp add: script_eval disk_full_at_512_def all_fine_def strip3_fill)

text \<open>
  That reading fails when the disk fills up while the second derived size is written: the
  exception is caught after the master icon and the 1024 pixel icon have been saved and
  the file of the 512 pixel icon has been opened, so of the five derived files one exists
  in whole, one is an empty or cut-off file, and three were never written.
\<close>

theorem derived_sizes_partly_written:
  "\<not> aborts_without_partial_writes disk_full_at_512 \<and>
   isl (script_body disk_full_at_512) \<and>
   saved (fix_icon_and_generate_favicon disk_full_at_512) =
     [(''public/gimmies_app_icon.png'', Whole strip3_filled),
      (''public/icons/icon-1024.png'', Whole (green_icon 1024)),
      (''public/icons/icon-512.png'', Partial)] \<and>
   derived_written (fix_icon_and_generate_favicon disk_full_at_512) =
     [(''public/icons/icon-1024.png'', Whole (green_icon 1024)),
      (''public/icons/icon-512.png'', Partial)] \<and>
   printed (fix_icon_and_generate_favicon disk_full_at_512) =
     [''Flood fill complete.'', ''Saved fixed public/gimmies_app_icon.png'',
      ''Generated public/icons/icon-1024.png'', ''Error: No space left on device'']"
  by (simp add: aborts_without_partial_writes_def fix_icon_and_generate_favicon_def
      disk_full_at_512_run print_line_def derived_written_def derived_paths_def outputs_def
      sizes_def)

text \<open>
  \<^bold>\<open>C8\<close>, as the script behaves, for every environment. When the logo cannot be
  opened, nothing is written and the one line printed is the error. When the fill has
  returned, the steps for the first \<open>k\<close> outputs end well and the step for output \<open>k\<close>
  raises: the files left are exactly the first \<open>k\<close> outputs, each in whole with the
  image its step wrote, followed by an empty or cut-off file at the path of output \<open>k\<close>
  if the save had opened it; no later output is written; the lines printed are the
  reports of the \<open>k\<close> steps and then the single line \<open>Error: message\<close>. When no
  step raises, all six files are left in whole and no error line is printed. In every
  case the function returns.
\<close>

theorem script_failure_outcome:
  "(\<forall>msg. open_image env ''public/gimmies-app-logo.png'' = Inl msg \<longrightarrow>
      fix_icon_and_generate_favicon env = \<lparr>saved = [], printed = [''Error: '' @ msg]\<rparr>) \<and>
   (\<forall>im0 im k rs msg left.
      open_image env ''public/gimmies-app-logo.png'' = Inr im0 \<and>
      fill is_white target_green im0 = Inr im \<and>
      k < length outputs \<and>
      map (attempt env im) (take k outputs) = map Wrote rs \<and>
      attempt env im (outputs ! k) = Raised msg left \<longrightarrow>
        saved (fix_icon_and_generate_favicon env) =
          zip (map fst (take k outputs)) (map Whole rs) @
          (if left then [(fst (outputs ! k), Partial)] else []) \<and>
        printed (fix_icon_and_generate_favicon env) =
          ''Flood fill complete.'' # take k report_lines @ [''Error: '' @ msg] \<and>
        error_lines (fix_icon_and_generate_favicon env) = [''Error: '' @ msg]) \<and>
   (\<forall>im0 im rs.
      open_image env ''public/gimmies-app-logo.png'' = Inr im0 \<and>
      fill is_white target_green im0 = Inr im \<and>
      map (attempt env im) outputs = map Wrote rs \<longrightarrow>
        saved (fix_icon_and_generate_favicon env) = zip (map fst outputs) (map Whole rs) \<and>
        printed (fix_icon_and_generate_favicon env) = ''Flood fill complete.'' # report_lines \<and>
        error_lines (fix_icon_and_generate_favicon env) = [])"
proof (intro conjI allI impI)
  fix msg
  assume "open_image env ''public/gimmies-app-logo.png'' = Inl msg"
  then show "fix_icon_and_generate_favicon env = \<lparr>saved = [], printed = [''Error: '' @ msg]\<rparr>"
    by (rule run_source_missing)
next
  fix im0 im k rs msg left
  assume h: "open_image env ''public/gimmies-app-logo.png'' = Inr im0 \<and>
      fill is_white target_green im0 = Inr im \<and>
      k < length outputs \<and>
      map (attempt env im) (take k outputs) = map Wrote rs \<and>
      attempt env im (outputs ! k) = Raised msg left"
  then have o: "open_image env ''public/gimmies-app-logo.png'' = Inr im0"
    and f: "fill is_white target_green im0 = Inr im" and k: "k < length outputs"
    and b: "map (attempt env im) (take k outputs) = map Wrote rs"
    and a: "attempt env im (outputs ! k) = Raised msg left" by simp_all
  show "saved (fix_icon_and_generate_favicon env) =
          zip (map fst (take k outputs)) (map Whole rs) @
          (if left then [(fst (outputs ! k), Partial)] else [])"
    by (rule run_step_raises(1)[OF o f k b a])
  show p: "printed (fix_icon_and_generate_favicon env) =
          ''Flood fill complete.'' # take k report_lines @ [''Error: '' @ msg]"
    by (rule run_step_raises(2)[OF o f k b a])
  show "error_lines (fix_icon_and_generate_favicon env) = [''Error: '' @ msg]"
    by (simp add: error_lines_def p report_lines_no_error)
next
  fix im0 im rs
  assume h: "open_image env ''public/gimmies-app-logo.png'' = Inr im0 \<and>
      fill is_white target_green im0 = Inr im \<and>
      map (attempt env im) outputs = map Wrote rs"
  then have o: "open_image env ''public/gimmies-app-logo.png'' = Inr im0"
    and f: "fill is_white target_green im0 = Inr im"
    and b: "map (attempt env im) outputs = map Wrote rs" by simp_all
  show "saved (fix_icon_and_generate_favicon env) = zip (map fst outputs) (map Whole rs)"
    by (rule run_no_step_raises(1)[OF o f b])
  show p: "printed (fix_icon_and_generate_favicon env) = ''Flood fill complete.'' # report_lines"
    by (rule run_no_step_raises(2)[OF o f b])
  from report_lines_no_error[of "length report_lines"]
  show "error_lines (fix_icon_and_generate_favicon env) = []"
    by (simp add: error_lines_def p)
qed

text \<open>
  The equations that decide how a step ends in a concrete environment.
\<close>

lemmas attempt_eval = attempt_def outputs_def sizes_def flat_resize_def green_icon_def

theorem script_failure_outcome_witness:
  "open_image source_missing ''public/gimmies-app-logo.png'' = Inl ''No such file or directory'' \<and>
   fix_icon_and_generate_favicon source_missing =
     \<lparr>saved = [], printed = [''Error: No such file or directory'']\<rparr> \<and>
   open_image disk_full_at_512 ''public/gimmies-app-logo.png'' = Inr strip3 \<and>
   fill is_white target_green strip3 = Inr strip3_filled \<and>
   2 < length outputs \<and>
   map (attempt disk_full_at_512 strip3_filled) (take 2 outputs) =
     map Wrote [strip3_filled, green_icon 1024] \<and>
   attempt disk_full_at_512 strip3_filled (outputs ! 2) = Raised ''No space left on device'' True \<and>
   saved (fix_icon_and_generate_favicon disk_full_at_512) =
     [(''public/gimmies_app_icon.png'', Whole strip3_filled),
      (''public/icons/icon-1024.png'', Whole (green_icon 1024)),
      (''public/icons/icon-512.png'', Partial)] \<and>
   printed (fix_icon_and_generate_favicon disk_full_at_512) =
     [''Flood fill complete.'', ''Saved fixed public/gimmies_app_icon.png'',
      ''Generated public/icons/icon-1024.png'', ''Error: No space left on device''] \<and>
   attempt icons_directory_missing strip3_filled (outputs ! 1) =
     Raised ''No such file or directory'' False \<and>
   saved (fix_icon_and_generate_favicon icons_directory_missing) =
     [(''public/gimmies_app_icon.png'', Whole strip3_filled)] \<and>
   error_lines (fix_icon_and_generate_favicon icons_directory_missing) =
     [''Error: No such file or directory''] \<and>
   map (attempt all_fine strip3_filled) outputs =
     map Wrote [strip3_filled, green_icon 1024, green_icon 512, green_icon 192, green_icon 180,
                green_icon 64] \<and>
   saved (fix_icon_and_generate_favicon all_fine) =
     [(''public/gimmies_app_icon.png'', Whole strip3_filled),
      (''public/icons/icon-1024.png'', Whole (green_icon 1024)),
      (''public/icons/icon-512.png'', Whole (green_icon 512)),
      (''public/icons/icon-192.png'', Whole (green_icon 192)),
      (''public/apple-touch-icon.png'', Whole (green_icon 180)),
      (''public/favicon.png'', Whole (green_icon 64))] \<and>
   error_lines (fix_icon_and_generate_favicon all_fine) = []"
proof -
  let ?src = "''public/gimmies-app-logo.png''"
  have m: "open_image source_missing ?src = Inl ''No such file or directory''"
    by (simp add: source_missing_def all_fine_def)
  from script_failure_outcome[of source_missing, THEN conjunct1, rule_format, OF m]
  have 1: "fix_icon_and_generate_favicon source_missing =
     \<lparr>saved = [], printed = [''Error: No such file or directory'']\<rparr>" by simp
  have od: "open_image disk_full_at_512 ?src = Inr strip3"
    and oi: "open_image icons_directory_missing ?src = Inr strip3"
    and oa: "open_image all_fine ?src = Inr strip3"
    by (simp_all add: disk_full_at_512_def icons_directory_missing_def all_fine_def)
  have k2: "(2::nat) < length outputs" and k1: "(1::nat) < length outputs"
    by (simp_all add: outputs_def sizes_def)
  have bd: "map (attempt disk_full_at_512 strip3_filled) (take 2 outputs) =
     map Wrote [strip3_filled, green_icon 1024]"
    by (simp add: attempt_eval disk_full_at_512_def all_fine_def)
  have ad: "attempt disk_full_at_512 strip3_filled (outputs ! 2) =
     Raised ''No space left on device'' True"
    by (simp add: attempt_eval disk_full_at_512_def all_fine_def)
  from script_failure_outcome[of disk_full_at_512, THEN conjunct2, THEN conjunct1, rule_format,
      of strip3 strip3_filled 2 "[strip3_filled, green_icon 1024]" "''No space left on device''" True]
    od strip3_fill k2 bd ad
  have 2: "saved (fix_icon_and_generate_favicon disk_full_at_512) =
     [(''public/gimmies_app_icon.png'', Whole strip3_filled),
      (''public/icons/icon-1024.png'', Whole (green_icon 1024)),
      (''public/icons/icon-512.png'', Partial)] \<and>
   printed (fix_icon_and_generate_favicon disk_full_at_512) =
     [''Flood fill complete.'', ''Saved fixed public/gimmies_app_icon.png'',
      ''Generated public/icons/icon-1024.png'', ''Error: No space left on device'']"
    by (simp add: outputs_def sizes_def report_lines_def)
  have bi: "map (attempt icons_directory_missing strip3_filled) (take 1 outputs) =
     map Wrote [strip3_filled]"
    by (simp add: attempt_eval icons_directory_missing_def all_fine_def)
  have ai: "attempt icons_directory_missing strip3_filled (outputs ! 1) =
     Raised ''No such file or directory'' False"
    by (simp add: attempt_eval icons_directory_missing_def all_fine_def)
  from script_failure_outcome[of icons_directory_missing, THEN conjunct2, THEN conjunct1,
      rule_format, of strip3 strip3_filled 1 "[strip3_filled]" "''No such file or directory''" False]
    oi strip3_fill k1 bi ai
  have 3: "saved (fix_icon_and_generate_favicon icons_directory_missing) =
     [(''public/gimmies_app_icon.png'', Whole strip3_filled)] \<and>
   error_lines (fix_icon_and_generate_favicon icons_directory_missing) =
     [''Error: No such file or directory'']"
    by (simp add: outputs_def sizes_def)
  have ba: "map (attempt all_fine strip3_filled) outputs =
     map Wrote [strip3_filled, green_icon 1024, green_icon 512, green_icon 192, green_icon 180,
                green_icon 64]"
    by (simp add: attempt_eval all_fine_def)
  from script_failure_outcome[of all_fine, THEN conjunct2, THEN conjunct2, rule_format,
      of strip3 strip3_filled "[strip3_filled, green_icon 1024, green_icon 512, green_icon 192,
        green_icon 180, green_icon 64]"]
    oa strip3_fill ba
  have 4: "saved (fix_icon_and_generate_favicon all_fine) =
     [(''public/gimmies_app_icon.png'', Whole strip3_filled),
      (''public/icons/icon-1024.png'', Whole (green_icon 1024)),
      (''public/icons/icon-512.png'', Whole (green_icon 512)),
      (''public/icons/icon-192.png'', Whole (green_icon 192)),
      (''public/apple-touch-icon.png'', Whole (green_icon 180)),
      (''public/favicon.png'', Whole (green_icon 64))] \<and>
   error_lines (fix_icon_and_generate_favicon all_fine) = []"
    by (simp add: outputs_def sizes_def)
  from m 1 od strip3_fill k2 bd ad 2 ai 3 ba 4 show ?thesis by simp
qed

section \<open>What the fill does beyond its stated contract\<close>

text \<open>
  \<^bold>\<open>C9.\<close> When the predicate accepts the target colour, the fill on an image with
  width and height at least 1 still terminates and still writes exactly the border region
  of the input image, each coordinate once; pixels that do not match in the input are not
  changed; and the visited set and the set of written coordinates are the same as for any
  other target colour, in particular one the predicate rejects.
\<close>

theorem fill_matching_target_same_region:
  assumes "1 \<le> width im" and "1 \<le> height im" and "matches target"
  shows "\<exists>s. fill_run matches target im = Inr s \<and> queue s = [] \<and>
           visited s = border_region matches im \<and>
           distinct (writes (trace s)) \<and>
           set (writes (trace s)) = border_region matches im \<and>
           (\<forall>c. pixels (img s) c = (if c \<in> border_region matches im then target else pixels im c)) \<and>
           (\<forall>c. \<not> matches (pixels im c) \<longrightarrow> pixels (img s) c = pixels im c) \<and>
           (\<forall>other. \<exists>s'. fill_run matches other im = Inr s' \<and> visited s' = visited s \<and>
                set (writes (trace s')) = set (writes (trace s)))"
proof -
  from fill_run_spec[OF assms(1,2)] obtain s where r: "fill_run matches target im = Inr s"
    by blast
  note reg = fill_run_region[OF r]
  have px: "\<forall>c. pixels (img s) c = (if c \<in> border_region matches im then target else pixels im c)"
    using reg(7) by blast
  have keep: "\<forall>c. \<not> matches (pixels im c) \<longrightarrow> pixels (img s) c = pixels im c"
  proof (intro allI impI)
    fix c assume "\<not> matches (pixels im c)"
    then have "c \<notin> border_region matches im" using border_region_matches by blast
    with reg(7)[of c] show "pixels (img s) c = pixels im c" by simp
  qed
  have same: "\<exists>s'. fill_run matches other im = Inr s' \<and> visited s' = visited s \<and>
                set (writes (trace s')) = set (writes (trace s))" for other
  proof -
    from fill_run_spec[OF assms(1,2)] obtain s' where r': "fill_run matches other im = Inr s'"
      by blast
    from fill_run_region(2,3)[OF r'] reg(2,3) r' show ?thesis by simp
  qed
  from r reg(1,2,3,4) px keep same show ?thesis by blast
qed

theorem fill_matching_target_same_region_witness:
  "1 \<le> width strip3 \<and> 1 \<le> height strip3 \<and> is_white near_white \<and>
   (\<exists>s. fill_run is_white near_white strip3 = Inr s \<and> queue s = [] \<and>
        writes (trace s) = [(0, 0), (1, 0), (2, 0)] \<and>
        border_region is_white strip3 = {(0, 0), (1, 0), (2, 0)} \<and>
        (\<exists>s'. fill_run is_white target_green strip3 = Inr s' \<and> visited s' = visited s))"
proof -
  have h: "1 \<le> width strip3" "1 \<le> height strip3" "is_white near_white"
    by (simp_all add: strip3_def is_white_def near_white_def)
  from fill_matching_target_same_region[where im = strip3 and matches = is_white
      and target = near_white, OF h]
  obtain s where all: "fill_run is_white near_white strip3 = Inr s \<and> queue s = [] \<and>
           visited s = border_region is_white strip3 \<and>
           distinct (writes (trace s)) \<and>
           set (writes (trace s)) = border_region is_white strip3 \<and>
           (\<forall>c. pixels (img s) c
                = (if c \<in> border_region is_white strip3 then near_white else pixels strip3 c)) \<and>
           (\<forall>c. \<not> is_white (pixels strip3 c) \<longrightarrow> pixels (img s) c = pixels strip3 c) \<and>
           (\<forall>other. \<exists>s'. fill_run is_white other strip3 = Inr s' \<and> visited s' = visited s \<and>
                set (writes (trace s')) = set (writes (trace s)))" ..
  from all have r: "fill_run is_white near_white strip3 = Inr s" and q: "queue s = []"
    and w: "set (writes (trace s)) = border_region is_white strip3" by simp_all
  from all have "\<forall>other. \<exists>s'. fill_run is_white other strip3 = Inr s' \<and> visited s' = visited s \<and>
                set (writes (trace s')) = set (writes (trace s))" by (elim conjE)
  then have "\<exists>s'. fill_run is_white target_green strip3 = Inr s' \<and> visited s' = visited s \<and>
                set (writes (trace s')) = set (writes (trace s))" by (rule spec)
  then have o: "\<exists>s'. fill_run is_white target_green strip3 = Inr s' \<and> visited s' = visited s"
    by (elim exE conjE) (intro exI conjI)
  from r strip3_run_near_white have "writes (trace s) = [(0, 0), (1, 0), (2, 0)]" by auto
  moreover from this w have "border_region is_white strip3 = {(0, 0), (1, 0), (2, 0)}" by auto
  ultimately have "fill_run is_white near_white strip3 = Inr s \<and> queue s = [] \<and>
        writes (trace s) = [(0, 0), (1, 0), (2, 0)] \<and>
        border_region is_white strip3 = {(0, 0), (1, 0), (2, 0)} \<and>
        (\<exists>s'. fill_run is_white target_green strip3 = Inr s' \<and> visited s' = visited s)"
    using r q o by simp
  then show ?thesis using h by blast
qed

text \<open>
  \<^bold>\<open>C10.\<close> For every image with width and height at least 1 the fill raises no index
  error, and every coordinate at which it indexes the pixel array lies inside the image:
  the seeds that are read first (the whole border queue), every coordinate that is
  written, and every neighbour that is read.
\<close>

theorem fill_accesses_inside_image:
  assumes "1 \<le> width im" and "1 \<le> height im"
  shows "(\<forall>c \<in> set (border_queue (width im) (height im)). inside (width im) (height im) c) \<and>
         (\<exists>s later. fill_run matches target im = Inr s \<and>
            trace s = map Read (border_queue (width im) (height im)) @ later \<and>
            set (writes (trace s)) = visited s \<and>
            (\<forall>a \<in> set (trace s). inside (width im) (height im) (touched a)))"
proof -
  from fill_run_spec[OF assms] obtain s where r: "fill_run matches target im = Inr s"
    and inv: "fill_inv matches target im s" by blast
  from inv obtain later
    where "trace s = map Read (border_queue (width im) (height im)) @ later"
    unfolding fill_inv_def by blast
  moreover from inv have "set (writes (trace s)) = visited s"
    and "\<forall>a \<in> set (trace s). inside (width im) (height im) (touched a)"
    unfolding fill_inv_def by blast+
  moreover have "\<forall>c \<in> set (border_queue (width im) (height im)). inside (width im) (height im) c"
    using border_queue_inside[OF assms] by blast
  ultimately show ?thesis using r by blast
qed

theorem fill_accesses_inside_image_witness:
  "1 \<le> width strip3 \<and> 1 \<le> height strip3 \<and>
   (\<exists>s. fill_run is_white target_green strip3 = Inr s \<and>
     trace s = [Read (0, 0), Read (0, 0), Read (1, 0), Read (1, 0), Read (2, 0), Read (2, 0),
                Read (0, 0), Read (2, 0), Write (0, 0), Read (1, 0), Write (1, 0),
                Read (2, 0), Write (2, 0)] \<and>
     list_all (\<lambda>a. inside 3 1 (touched a)) (trace s))"
proof -
  have h: "1 \<le> width strip3" "1 \<le> height strip3" by (simp_all add: strip3_def)
  from fill_accesses_inside_image[OF h, of is_white target_green]
  obtain s where r: "fill_run is_white target_green strip3 = Inr s"
    and a: "\<forall>a \<in> set (trace s). inside (width strip3) (height strip3) (touched a)"
    by blast
  from a have "list_all (\<lambda>a. inside 3 1 (touched a)) (trace s)"
    by (simp add: list_all_iff strip3_def)
  moreover from r strip3_run have "trace s = [Read (0, 0), Read (0, 0), Read (1, 0), Read (1, 0), Read (2, 0), Read (2, 0),
                Read (0, 0), Read (2, 0), Write (0, 0), Read (1, 0), Write (1, 0),
                Read (2, 0), Write (2, 0)]" by auto
  ultimately show ?thesis using h r by blast
qed

end
